theory Spec2Isabelle
  imports Main "HOL-Library.Word"
begin

unbundle bit_operations_syntax

section \<open>The buddy allocator of BuddyAllocator.hpp\<close>

text \<open>
  Addresses and sizes are \<open>std::uintptr_t\<close>, modelled as 64-bit words. A \<open>FreeList\<close>
  is a singly linked list threaded through the free blocks themselves; it is modelled
  as the list of the addresses it links, head first. \<open>emplace\<close> pushes at the head,
  \<open>extract\<close> pops the head. The array \<open>fList\<close> of the eight list heads is a function
  from the level to its list. The list stands for the linked nodes as long as no
  address is linked twice and no client writes into a block it has released; a
  double release or a write after release is undefined in the source and is outside
  the model.
\<close>

type_synonym addr = "64 word"

definition maxLevels :: nat where
  "maxLevels = 8"

definition minSize :: nat where
  "minSize = 32"

subsection \<open>The size tables\<close>

text \<open>
  \<open>levelSize\<close>: the loop \<open>for(int i = 0, sz = minSize; i < maxLevels; ++i, sz <<= 1)
  levelSize[i] = sz\<close> on a zero-initialised array.
\<close>

function levelSizeLoop :: "nat \<Rightarrow> nat \<Rightarrow> addr list \<Rightarrow> addr list" where
  "levelSizeLoop i sz arr =
     (if i < maxLevels then levelSizeLoop (i + 1) (sz * 2) (arr[i := of_nat sz]) else arr)"
  by pat_completeness auto
termination
  by (relation "measure (\<lambda>(i, sz, arr). maxLevels - i)") auto

declare levelSizeLoop.simps [simp del]

definition levelSize :: "addr list" where
  "levelSize = levelSizeLoop 0 minSize (replicate maxLevels 0)"

definition maxSize :: addr where
  "maxSize = levelSize ! (maxLevels - 1)"

text \<open>
  \<open>reverseLookup\<close>: an array of \<open>arrsz = (minSize << (maxLevels - 1))/2 + 1\<close> ints,
  filled by \<open>for(int currSz = minSize, i = 0, l = 0; i < arrsz; ++i)
  { if(currSz < i) currSz <<= 1, ++l; rev[i] = l; }\<close>.
\<close>

definition arrsz :: nat where
  "arrsz = (minSize * 2 ^ (maxLevels - 1)) div 2 + 1"

function revLoop :: "nat \<Rightarrow> nat \<Rightarrow> nat \<Rightarrow> nat list \<Rightarrow> nat list" where
  "revLoop currSz i l rev_arr =
     (if i < arrsz
      then (if currSz < i
            then revLoop (currSz * 2) (i + 1) (l + 1) (rev_arr[i := l + 1])
            else revLoop currSz (i + 1) l (rev_arr[i := l]))
      else rev_arr)"
  by pat_completeness auto
termination
  by (relation "measure (\<lambda>(currSz, i, l, rev_arr). arrsz - i)") auto

declare revLoop.simps [simp del]

definition reverseLookup :: "nat list" where
  "reverseLookup = revLoop minSize 0 0 (replicate arrsz 0)"

subsection \<open>Errors, handles and the allocator state\<close>

text \<open>
  \<open>BadAlloc\<close> is the \<open>std::bad_alloc\<close> thrown by \<open>allocate\<close>. \<open>OutOfBounds\<close> marks an
  index past the end of a \<open>std::array\<close>, which is undefined behaviour in the source.
\<close>

datatype error = BadAlloc | OutOfBounds

record Allocation =
  memory :: addr
  asize :: "64 word"

text \<open>
  The operating system's \<open>sbrk\<close> is not part of the repository. It is modelled from its
  POSIX description: the process has a program break; \<open>sbrk inc\<close> returns the previous
  break and moves the break up by \<open>inc\<close>, or returns \<open>(void *) -1\<close> and leaves the break
  alone when the new break would pass the limit the system grants.
\<close>

record os =
  brk :: addr
  brk_max :: addr

definition sbrk :: "os \<Rightarrow> addr \<Rightarrow> addr \<times> os" where
  "sbrk h inc =
     (if unat (brk h) + unat inc \<le> unat (brk_max h)
      then (brk h, h\<lparr>brk := brk h + inc\<rparr>)
      else (- 1, h))"

record state =
  fList :: "nat \<Rightarrow> addr list"
  heap :: os

subsection \<open>allocate\<close>

text \<open>
  The level computation \<open>sz > reverseLookup.size() ? maxLevels - 1 : reverseLookup[sz]\<close>,
  which \<open>allocate\<close> and \<open>deallocate\<close> both start with.
\<close>

definition lookupLevel :: "64 word \<Rightarrow> error + nat" where
  "lookupLevel sz =
     (if unat sz > length reverseLookup then Inr (maxLevels - 1)
      else if unat sz < length reverseLookup then Inr (reverseLookup ! unat sz)
      else Inl OutOfBounds)"

text \<open>
  The search \<open>for(int l = level; l < maxLevels; ++l) if(!fList[l].empty()) \<dots> break\<close>:
  the lists after the extraction, the extracted address and its level, or \<open>None\<close> when
  every list from \<open>level\<close> up is empty (\<open>mem\<close> stays null, \<open>currLevel\<close> unset).
\<close>

function findLoop :: "(nat \<Rightarrow> addr list) \<Rightarrow> nat \<Rightarrow> ((nat \<Rightarrow> addr list) \<times> addr \<times> nat) option" where
  "findLoop fl l =
     (if l < maxLevels
      then (case fl l of
              [] \<Rightarrow> findLoop fl (l + 1)
            | x # xs \<Rightarrow> Some (fl(l := xs), x, l))
      else None)"
  by pat_completeness auto
termination
  by (relation "measure (\<lambda>(fl, l). maxLevels - l)") auto

declare findLoop.simps [simp del]

text \<open>
  The split \<open>while(currLevel --> level) fList[currLevel].emplace(mem + levelSize[currLevel])\<close>:
  the comparison reads \<open>currLevel\<close> before the decrement, the body after it.
\<close>

function splitLoop :: "(nat \<Rightarrow> addr list) \<Rightarrow> addr \<Rightarrow> nat \<Rightarrow> nat \<Rightarrow> (nat \<Rightarrow> addr list)" where
  "splitLoop fl mem currLevel level =
     (if currLevel > level
      then splitLoop (fl(currLevel - 1 := (mem + levelSize ! (currLevel - 1)) # fl (currLevel - 1)))
             mem (currLevel - 1) level
      else fl)"
  by pat_completeness auto
termination
  by (relation "measure (\<lambda>(fl, mem, currLevel, level). currLevel)") auto

declare splitLoop.simps [simp del]

text \<open>
  Lines 113 to 118: the sentinel test, the split and the returned handle. A failure
  carries the state at the throw.
\<close>

definition splitAndReturn ::
  "(nat \<Rightarrow> addr list) \<Rightarrow> os \<Rightarrow> addr \<Rightarrow> nat \<Rightarrow> nat \<Rightarrow> (error \<times> state) + (Allocation \<times> state)" where
  "splitAndReturn fl h mem currLevel level =
     (if mem = - 1 then Inl (BadAlloc, \<lparr>fList = fl, heap = h\<rparr>)
      else Inr (\<lparr>memory = mem, asize = levelSize ! level\<rparr>,
                \<lparr>fList = splitLoop fl mem currLevel level, heap = h\<rparr>))"

text \<open>Lines 109 to 111: \<open>if(!mem) mem = sbrk(maxSize), currLevel = maxLevels - 1\<close>.\<close>

definition growIfNull ::
  "(nat \<Rightarrow> addr list) \<Rightarrow> os \<Rightarrow> nat \<Rightarrow> (error \<times> state) + (Allocation \<times> state)" where
  "growIfNull fl h level =
     (case sbrk h maxSize of (mem, h') \<Rightarrow> splitAndReturn fl h' mem (maxLevels - 1) level)"

definition allocate :: "state \<Rightarrow> 64 word \<Rightarrow> (error \<times> state) + (Allocation \<times> state)" where
  "allocate st sz =
     (case lookupLevel sz of
        Inl e \<Rightarrow> Inl (e, st)
      | Inr level \<Rightarrow>
          (case findLoop (fList st) level of
             None \<Rightarrow> growIfNull (fList st) (heap st) level
           | Some (fl, mem, currLevel) \<Rightarrow>
               if mem = 0 then growIfNull fl (heap st) level
               else splitAndReturn fl (heap st) mem currLevel level))"

subsection \<open>deallocate\<close>

text \<open>
  The scan \<open>for(auto prev = &fList[lv]; prev->next != nullptr; prev = prev->next)
  if(prev->next == buddy) \<dots> prev->extract()\<close>: the list without the first node that
  is the buddy, or \<open>None\<close> when the scan reaches the end.
\<close>

fun scavenge :: "addr \<Rightarrow> addr list \<Rightarrow> addr list option" where
  "scavenge buddy [] = None"
| "scavenge buddy (x # xs) =
     (if x = buddy then Some xs else map_option ((#) x) (scavenge buddy xs))"

text \<open>
  The loop \<open>while(alloc.size != maxSize)\<close>. Reading \<open>levelSize[lv]\<close> with \<open>lv\<close> past the last
  level is out of bounds.
\<close>

function bubble ::
  "(nat \<Rightarrow> addr list) \<Rightarrow> Allocation \<Rightarrow> nat \<Rightarrow> error + ((nat \<Rightarrow> addr list) \<times> Allocation \<times> nat)" where
  "bubble fl alloc lv =
     (if asize alloc \<noteq> maxSize
      then (if lv < maxLevels
            then (case scavenge (memory alloc XOR levelSize ! lv) (fl lv) of
                    Some xs \<Rightarrow>
                      bubble (fl(lv := xs))
                        \<lparr>memory = memory alloc AND NOT (levelSize ! lv),
                         asize = push_bit 1 (asize alloc)\<rparr>
                        (lv + 1)
                  | None \<Rightarrow> Inr (fl, alloc, lv))
            else Inl OutOfBounds)
      else Inr (fl, alloc, lv))"
  by pat_completeness auto
termination
  by (relation "measure (\<lambda>(fl, alloc, lv). maxLevels - lv)") auto

declare bubble.simps [simp del]

text \<open>
  \<open>deallocate\<close> takes the handle by reference: the model returns the handle as the
  call leaves it, with the new state.
\<close>

definition deallocate :: "state \<Rightarrow> Allocation \<Rightarrow> error + (Allocation \<times> state)" where
  "deallocate st alloc =
     (if memory alloc = 0 then Inr (alloc, st)
      else (case lookupLevel (asize alloc) of
              Inl e \<Rightarrow> Inl e
            | Inr lv0 \<Rightarrow>
                (case bubble (fList st) alloc lv0 of
                   Inl e \<Rightarrow> Inl e
                 | Inr (fl, alloc', lv) \<Rightarrow>
                     if lv < maxLevels
                     then Inr (\<lparr>memory = 0, asize = 0\<rparr>,
                               st\<lparr>fList := fl(lv := memory alloc' # fl lv)\<rparr>)
                     else Inl OutOfBounds)))"

subsection \<open>The client of the allocator\<close>

text \<open>
  A run of the program is a sequence of calls: \<open>Alloc n\<close> calls \<open>allocate n\<close> and keeps
  the returned handle; \<open>Free i\<close> releases the \<open>i\<close>-th handle the client still holds.
  A \<open>bad_alloc\<close> is caught and the run goes on from the state at the throw; a run
  that reads an array out of bounds has no defined continuation. The client holds
  each handle once and releases only handles it holds, as the \<open>Allocation\<close> wrapper
  enforces; the handles it holds are the outstanding allocations.
\<close>

datatype op = Alloc "64 word" | Free nat

type_synonym sys = "state \<times> Allocation list"

definition emptyStore :: "nat \<Rightarrow> addr list" where
  "emptyStore = (\<lambda>l. [])"

definition init :: "os \<Rightarrow> sys" where
  "init h = (\<lparr>fList = emptyStore, heap = h\<rparr>, [])"

fun step :: "sys \<Rightarrow> op \<Rightarrow> sys option" where
  "step (st, live) (Alloc n) =
     (case allocate st n of
        Inr (a, st') \<Rightarrow> Some (st', a # live)
      | Inl (BadAlloc, st') \<Rightarrow> Some (st', live)
      | Inl (OutOfBounds, st') \<Rightarrow> None)"
| "step (st, live) (Free i) =
     (if i < length live
      then (case deallocate st (live ! i) of
              Inr (a', st') \<Rightarrow> Some (st', take i live @ drop (Suc i) live)
            | Inl e \<Rightarrow> None)
      else None)"

fun run :: "sys \<Rightarrow> op list \<Rightarrow> sys option" where
  "run s [] = Some s"
| "run s (x # xs) = (case step s x of None \<Rightarrow> None | Some s' \<Rightarrow> run s' xs)"

text \<open>The eight free lists of a state, level 0 first.\<close>

definition freeLists :: "state \<Rightarrow> addr list list" where
  "freeLists st = map (fList st) [0..<maxLevels]"

subsection \<open>Alignment and the invariant of the free lists\<close>

text \<open>\<open>aligned k a\<close>: the address \<open>a\<close> is a multiple of \<open>2 ^ k\<close>.\<close>

definition aligned :: "nat \<Rightarrow> addr \<Rightarrow> bool" where
  "aligned k a \<longleftrightarrow> take_bit k a = 0"

text \<open>
  The assumption on the operating system: the program break the process starts
  with is not null and is a multiple of \<open>maxSize = 2 ^ 12\<close> (a page boundary).
\<close>

definition os_ok :: "os \<Rightarrow> bool" where
  "os_ok h \<longleftrightarrow> aligned 12 (brk h) \<and> brk h \<noteq> 0"

definition wf_free :: "(nat \<Rightarrow> addr list) \<Rightarrow> bool" where
  "wf_free fl \<longleftrightarrow> (\<forall>l<maxLevels. \<forall>a\<in>set (fl l). aligned (l + 5) a \<and> a \<noteq> 0)"

definition no_buddies :: "(nat \<Rightarrow> addr list) \<Rightarrow> bool" where
  "no_buddies fl \<longleftrightarrow>
     (\<forall>l<maxLevels - 1. \<forall>a\<in>set (fl l). a XOR levelSize ! l \<notin> set (fl l))"

definition wf_handle :: "Allocation \<Rightarrow> bool" where
  "wf_handle a \<longleftrightarrow>
     memory a \<noteq> 0 \<and> (\<exists>l<maxLevels. asize a = levelSize ! l \<and> aligned (l + 5) (memory a))"

definition sys_inv :: "sys \<Rightarrow> bool" where
  "sys_inv s \<longleftrightarrow>
     wf_free (fList (fst s)) \<and> no_buddies (fList (fst s)) \<and> os_ok (heap (fst s)) \<and>
     (\<forall>a\<in>set (snd s). wf_handle a)"

text \<open>The closed form of the reverse lookup table, for the proofs.\<close>

definition ceilLevel :: "nat \<Rightarrow> nat" where
  "ceilLevel i =
     (if i \<le> 32 then 0 else if i \<le> 64 then 1 else if i \<le> 128 then 2
      else if i \<le> 256 then 3 else if i \<le> 512 then 4 else if i \<le> 1024 then 5 else 6)"

subsection \<open>The operations as the specification words them\<close>

text \<open>
  The definitions of this subsection follow the specification (sections 4.1 to 4.5),
  not the source; the theorems compare them with the source's functions.
\<close>

definition levelSizeOf :: "nat \<Rightarrow> 64 word" where
  "levelSizeOf level = push_bit level (of_nat minSize)"

definition isEmpty :: "(nat \<Rightarrow> addr list) \<Rightarrow> nat \<Rightarrow> bool" where
  "isEmpty fl level \<longleftrightarrow> fl level = []"

definition insert_fl :: "(nat \<Rightarrow> addr list) \<Rightarrow> nat \<Rightarrow> addr \<Rightarrow> (nat \<Rightarrow> addr list)" where
  "insert_fl fl level address = fl(level := address # fl level)"

definition takeHead :: "(nat \<Rightarrow> addr list) \<Rightarrow> nat \<Rightarrow> addr \<times> (nat \<Rightarrow> addr list)" where
  "takeHead fl level = (hd (fl level), fl(level := tl (fl level)))"

definition removeIfPresent :: "(nat \<Rightarrow> addr list) \<Rightarrow> nat \<Rightarrow> addr \<Rightarrow> bool \<times> (nat \<Rightarrow> addr list)" where
  "removeIfPresent fl level address =
     (if address \<in> set (fl level) then (True, fl(level := remove1 address (fl level)))
      else (False, fl))"

definition growByMaxBlock :: "os \<Rightarrow> error + (addr \<times> os)" where
  "growByMaxBlock h =
     (case sbrk h (levelSizeOf (maxLevels - 1)) of
        (r, h') \<Rightarrow> if r = - 1 then Inl BadAlloc else Inr (r, h'))"

text \<open>
  Section 4.4, steps 2 to 5. The split of step 4 visits the levels \<open>found - 1\<close> down
  to \<open>target\<close> and inserts the upper half at each.
\<close>

definition split_spec :: "(nat \<Rightarrow> addr list) \<Rightarrow> addr \<Rightarrow> nat \<Rightarrow> nat \<Rightarrow> (nat \<Rightarrow> addr list)" where
  "split_spec fl block found target =
     foldl (\<lambda>f level. insert_fl f level (block + levelSizeOf level)) fl (rev [target..<found])"

definition allocate_spec :: "state \<Rightarrow> nat \<Rightarrow> (error \<times> state) + (Allocation \<times> state)" where
  "allocate_spec st target =
     (case find (\<lambda>level. \<not> isEmpty (fList st) level) [target..<maxLevels] of
        Some found \<Rightarrow>
          (case takeHead (fList st) found of
             (block, fl) \<Rightarrow>
               Inr (\<lparr>memory = block, asize = levelSizeOf target\<rparr>,
                    \<lparr>fList = split_spec fl block found target, heap = heap st\<rparr>))
      | None \<Rightarrow>
          (case growByMaxBlock (heap st) of
             Inl e \<Rightarrow> Inl (e, st)
           | Inr (block, h') \<Rightarrow>
               Inr (\<lparr>memory = block, asize = levelSizeOf target\<rparr>,
                    \<lparr>fList = split_spec (fList st) block (maxLevels - 1) target, heap = h'\<rparr>)))"

text \<open>
  Section 4.5. The loop of step 2 runs while the size is not \<open>maxSize\<close>; it is a
  partial function, \<open>None\<close> when it does not return.
\<close>

partial_function (option) mergeLoop_spec ::
  "(nat \<Rightarrow> addr list) \<Rightarrow> addr \<Rightarrow> nat \<Rightarrow> 64 word \<Rightarrow> ((nat \<Rightarrow> addr list) \<times> addr \<times> nat) option" where
  "mergeLoop_spec fl address level sz =
     (if sz \<noteq> levelSizeOf (maxLevels - 1)
      then (let r = removeIfPresent fl level (address XOR levelSizeOf level)
            in if fst r
               then mergeLoop_spec (snd r) (address AND NOT (levelSizeOf level)) (level + 1) (2 * sz)
               else Some (fl, address, level))
      else Some (fl, address, level))"

definition deallocate_spec :: "state \<Rightarrow> Allocation \<Rightarrow> (Allocation \<times> state) option" where
  "deallocate_spec st alloc =
     (if memory alloc = 0 then Some (alloc, st)
      else (case find (\<lambda>level. levelSizeOf level = asize alloc) [0..<maxLevels] of
              None \<Rightarrow> None
            | Some level \<Rightarrow>
                (case mergeLoop_spec (fList st) (memory alloc) level (asize alloc) of
                   None \<Rightarrow> None
                 | Some (fl, address, level') \<Rightarrow>
                     Some (\<lparr>memory = 0, asize = 0\<rparr>, st\<lparr>fList := insert_fl fl level' address\<rparr>))))"

section \<open>The size tables\<close>

lemma levelSize_eq: "levelSize = [32, 64, 128, 256, 512, 1024, 2048, 4096]"
  by (simp add: levelSize_def levelSizeLoop.simps maxLevels_def minSize_def numeral_eq_Suc)

lemma maxSize_eq: "maxSize = 4096"
  by (simp add: maxSize_def levelSize_eq maxLevels_def)

lemma length_levelSize: "length levelSize = 8"
  by (simp add: levelSize_eq)

lemma levelSize_nth: "l < 8 \<Longrightarrow> levelSize ! l = 2 ^ (l + 5)"
proof -
  assume "l < 8"
  then consider "l = 0" | "l = 1" | "l = 2" | "l = 3" | "l = 4" | "l = 5" | "l = 6" | "l = 7"
    by linarith
  then show ?thesis by cases (simp_all add: levelSize_eq)
qed

lemma levelSizeOf_eq: "levelSizeOf l = 2 ^ (l + 5)"
  by (simp add: levelSizeOf_def minSize_def push_bit_eq_mult power_add)

lemma levelSizeOf_nth: "l < 8 \<Longrightarrow> levelSizeOf l = levelSize ! l"
  by (simp add: levelSize_nth levelSizeOf_eq)

lemma unat_levelSize: "l < 8 \<Longrightarrow> unat (levelSize ! l) = 2 ^ (l + 5)"
proof -
  assume "l < 8"
  then consider "l = 0" | "l = 1" | "l = 2" | "l = 3" | "l = 4" | "l = 5" | "l = 6" | "l = 7"
    by linarith
  then show ?thesis by cases (simp_all add: levelSize_eq)
qed

lemma arrsz_eq: "arrsz = 2049"
  by (simp add: arrsz_def minSize_def maxLevels_def)

lemma ceilLevel_step:
  "i < 2049 \<Longrightarrow>
   ceilLevel i =
     (if 32 * 2 ^ ceilLevel (i - 1) < i then ceilLevel (i - 1) + 1 else ceilLevel (i - 1))"
  by (auto simp: ceilLevel_def)

lemma length_revLoop: "length (revLoop c i l rv) = length rv"
  by (induction c i l rv rule: revLoop.induct) (subst revLoop.simps, simp)

lemma revLoop_nth:
  "l = ceilLevel (i - 1) \<Longrightarrow> c = 32 * 2 ^ l \<Longrightarrow> length rv = arrsz \<Longrightarrow> j < arrsz \<Longrightarrow>
   revLoop c i l rv ! j = (if j < i then rv ! j else ceilLevel j)"
proof (induction c i l rv rule: revLoop.induct)
  case (1 currSz i l rv)
  show ?case
  proof (cases "i < arrsz")
    case False
    with 1 show ?thesis by (subst revLoop.simps) simp
  next
    case True
    then have i: "i < 2049" by (simp add: arrsz_eq)
    note st = ceilLevel_step [OF i]
    show ?thesis
    proof (cases "currSz < i")
      case lt: True
      with 1(3,4) st have l': "l + 1 = ceilLevel (i + 1 - 1)" by simp
      have "revLoop currSz i l rv ! j = revLoop (currSz * 2) (i + 1) (l + 1) (rv[i := l + 1]) ! j"
        using True lt by (subst revLoop.simps) simp
      also have "\<dots> = (if j < i + 1 then rv[i := l + 1] ! j else ceilLevel j)"
        using 1(1) [OF True lt l'] 1(4,5,6) by simp
      also have "\<dots> = (if j < i then rv ! j else ceilLevel j)"
        using l' 1(5) True by (auto simp: nth_list_update less_Suc_eq)
      finally show ?thesis .
    next
      case ge: False
      with 1(3,4) st have l': "l = ceilLevel (i + 1 - 1)" by simp
      have "revLoop currSz i l rv ! j = revLoop currSz (i + 1) l (rv[i := l]) ! j"
        using True ge by (subst revLoop.simps) simp
      also have "\<dots> = (if j < i + 1 then rv[i := l] ! j else ceilLevel j)"
        using 1(2) [OF True ge l'] 1(4,5,6) by simp
      also have "\<dots> = (if j < i then rv ! j else ceilLevel j)"
        using l' 1(5) True by (auto simp: nth_list_update less_Suc_eq)
      finally show ?thesis .
    qed
  qed
qed

lemma length_reverseLookup: "length reverseLookup = 2049"
  by (simp add: reverseLookup_def length_revLoop arrsz_eq)

lemma reverseLookup_nth: "i < 2049 \<Longrightarrow> reverseLookup ! i = ceilLevel i"
  unfolding reverseLookup_def
  by (subst revLoop_nth) (simp_all add: ceilLevel_def minSize_def arrsz_eq)

lemma lookupLevel_small: "unat sz < 2049 \<Longrightarrow> lookupLevel sz = Inr (ceilLevel (unat sz))"
  by (simp add: lookupLevel_def length_reverseLookup reverseLookup_nth)

lemma lookupLevel_big: "2049 < unat sz \<Longrightarrow> lookupLevel sz = Inr 7"
  by (simp add: lookupLevel_def length_reverseLookup maxLevels_def)

lemma lookupLevel_edge: "unat sz = 2049 \<Longrightarrow> lookupLevel sz = Inl OutOfBounds"
  by (simp add: lookupLevel_def length_reverseLookup)

lemma ceilLevel_le: "ceilLevel i \<le> 6"
  by (simp add: ceilLevel_def)

lemma lookupLevel_lt: "lookupLevel sz = Inr t \<Longrightarrow> t < 8"
  using ceilLevel_le [of "unat sz"]
  by (auto simp: lookupLevel_def length_reverseLookup reverseLookup_nth maxLevels_def
      split: if_splits)

lemma lookupLevel_levelSize: "l < 8 \<Longrightarrow> lookupLevel (levelSize ! l) = Inr l"
proof -
  assume "l < 8"
  then consider "l = 0" | "l = 1" | "l = 2" | "l = 3" | "l = 4" | "l = 5" | "l = 6" | "l = 7"
    by linarith
  then show ?thesis
    by cases (simp_all add: levelSize_eq lookupLevel_small lookupLevel_big ceilLevel_def)
qed

section \<open>The granted size\<close>

lemma allocate_asize:
  "allocate st n = Inr (a, st') \<Longrightarrow> \<exists>t. lookupLevel n = Inr t \<and> asize a = levelSize ! t"
  by (auto simp: allocate_def growIfNull_def splitAndReturn_def
      split: sum.splits option.splits prod.splits if_splits)

lemma findLoop_emptyStore: "findLoop emptyStore l = None"
  by (induction emptyStore l rule: findLoop.induct) (subst findLoop.simps, simp add: emptyStore_def)

lemma allocate_not_out_of_bounds:
  "lookupLevel n = Inr t \<Longrightarrow> allocate st n \<noteq> Inl (OutOfBounds, s)"
  by (auto simp: allocate_def growIfNull_def splitAndReturn_def
      split: sum.splits option.splits prod.splits if_splits)

text \<open>
  Claim C1, as amended. For every request \<open>n\<close> other than 2049 the level lookup
  stays inside the table, so \<open>allocate n\<close> either returns a handle or throws
  \<open>bad_alloc\<close>. When it returns a handle, the size is one of the configured level
  sizes: for \<open>0 < n \<le> maxSize\<close> it is at least \<open>n\<close> and no larger than any level size
  that is at least \<open>n\<close>, that is the smallest level size \<open>\<ge> n\<close>; for \<open>n > maxSize\<close> the
  guard of the level computation clamps the request to the top level, and the
  granted size is \<open>maxSize\<close>, smaller than \<open>n\<close>. The request of exactly 2049 bytes,
  where the lookup reads past the table, is left out: nothing is said of it here.
\<close>

theorem allocate_granted_size:
  "unat n \<noteq> 2049 \<Longrightarrow>
   (\<exists>t<maxLevels. lookupLevel n = Inr t) \<and>
   (\<forall>s. allocate st n \<noteq> Inl (OutOfBounds, s)) \<and>
   (allocate st n = Inr (a, st') \<longrightarrow>
      asize a \<in> set levelSize \<and>
      (0 < unat n \<and> unat n \<le> unat maxSize \<longrightarrow>
         unat n \<le> unat (asize a) \<and>
         (\<forall>s\<in>set levelSize. unat n \<le> unat s \<longrightarrow> unat (asize a) \<le> unat s)) \<and>
      (unat maxSize < unat n \<longrightarrow> asize a = maxSize))"
proof -
  assume ne: "unat n \<noteq> 2049"
  then consider "unat n < 2049" | "2049 < unat n" by linarith
  then obtain t where t: "lookupLevel n = Inr t"
    and c: "unat n < 2049 \<and> t = ceilLevel (unat n) \<or> 2049 < unat n \<and> t = 7"
  proof cases
    case 1
    then have "lookupLevel n = Inr (ceilLevel (unat n))" by (rule lookupLevel_small)
    with 1 that show ?thesis by blast
  next
    case 2
    then have "lookupLevel n = Inr 7" by (rule lookupLevel_big)
    with 2 that show ?thesis by blast
  qed
  from t have "t < 8" by (rule lookupLevel_lt)
  with t have 1: "\<exists>t<maxLevels. lookupLevel n = Inr t" by (auto simp: maxLevels_def)
  from t have 2: "\<forall>s. allocate st n \<noteq> Inl (OutOfBounds, s)"
    using allocate_not_out_of_bounds by blast
  have 3: "allocate st n = Inr (a, st') \<longrightarrow>
      asize a \<in> set levelSize \<and>
      (0 < unat n \<and> unat n \<le> unat maxSize \<longrightarrow>
         unat n \<le> unat (asize a) \<and>
         (\<forall>s\<in>set levelSize. unat n \<le> unat s \<longrightarrow> unat (asize a) \<le> unat s)) \<and>
      (unat maxSize < unat n \<longrightarrow> asize a = maxSize)"
  proof
    assume "allocate st n = Inr (a, st')"
    then obtain t' where "lookupLevel n = Inr t'" and "asize a = levelSize ! t'"
      using allocate_asize by blast
    with t have a: "asize a = levelSize ! t" by simp
    from c show "asize a \<in> set levelSize \<and>
      (0 < unat n \<and> unat n \<le> unat maxSize \<longrightarrow>
         unat n \<le> unat (asize a) \<and>
         (\<forall>s\<in>set levelSize. unat n \<le> unat s \<longrightarrow> unat (asize a) \<le> unat s)) \<and>
      (unat maxSize < unat n \<longrightarrow> asize a = maxSize)"
    proof
      assume "unat n < 2049 \<and> t = ceilLevel (unat n)"
      with a show ?thesis by (simp add: levelSize_eq maxSize_eq ceilLevel_def)
    next
      assume "2049 < unat n \<and> t = 7"
      with a show ?thesis by (simp add: levelSize_eq maxSize_eq)
    qed
  qed
  from 1 2 3 show ?thesis by blast
qed

text \<open>A request of 40 bytes on an empty store is granted 64 bytes.\<close>

theorem allocate_granted_size_witness:
  "unat (40 :: 64 word) \<noteq> 2049 \<and>
   (\<exists>a st'. allocate \<lparr>fList = emptyStore, heap = \<lparr>brk = 4096, brk_max = 8192\<rparr>\<rparr> 40 = Inr (a, st') \<and>
     asize a = 64 \<and> asize a \<in> set levelSize)"
proof -
  have n: "unat (40 :: 64 word) \<noteq> 2049" by simp
  have "\<exists>a st'. allocate \<lparr>fList = emptyStore, heap = \<lparr>brk = 4096, brk_max = 8192\<rparr>\<rparr> 40 = Inr (a, st')
         \<and> asize a = 64"
    by (simp add: allocate_def lookupLevel_small ceilLevel_def findLoop_emptyStore growIfNull_def
        sbrk_def maxSize_eq splitAndReturn_def levelSize_eq)
  then obtain a st' where
    e: "allocate \<lparr>fList = emptyStore, heap = \<lparr>brk = 4096, brk_max = 8192\<rparr>\<rparr> 40 = Inr (a, st')"
    and s: "asize a = 64" by blast
  from allocate_granted_size [OF n, of "\<lparr>fList = emptyStore, heap = \<lparr>brk = 4096, brk_max = 8192\<rparr>\<rparr>" a st'] e
  have "asize a \<in> set levelSize" by blast
  with n s e show ?thesis by blast
qed

text \<open>
  Claim C1 as stated fails above \<open>maxSize\<close>: a request of 5000 bytes on an empty store
  returns normally, with a block of 4096 bytes.
\<close>

theorem allocate_oversized_counterexample:
  "allocate \<lparr>fList = emptyStore, heap = \<lparr>brk = 4096, brk_max = 8192\<rparr>\<rparr> 5000 =
     Inr (\<lparr>memory = 4096, asize = 4096\<rparr>,
          \<lparr>fList = emptyStore, heap = \<lparr>brk = 8192, brk_max = 8192\<rparr>\<rparr>) \<and>
   unat (4096 :: 64 word) < unat (5000 :: 64 word)"
  by (simp add: allocate_def lookupLevel_big findLoop_emptyStore growIfNull_def
      sbrk_def maxSize_eq splitAndReturn_def levelSize_eq maxLevels_def splitLoop.simps)

text \<open>
  Claim C2 asks that every request above \<open>maxSize / 2 = 2048\<close> resolves to the top level
  and that the table is never read out of bounds. The guard is
  \<open>sz > reverseLookup.size()\<close>, and the table has 2049 entries, indexed 0 to 2048:
  a request of exactly 2049 bytes passes the guard and reads \<open>reverseLookup[2049]\<close>,
  one past the end.
\<close>

theorem lookup_2049_out_of_bounds:
  "unat (2049 :: 64 word) = length reverseLookup \<and> lookupLevel 2049 = Inl OutOfBounds \<and>
   allocate st 2049 = Inl (OutOfBounds, st)"
  by (simp add: length_reverseLookup lookupLevel_edge allocate_def)

section \<open>Alignment\<close>

lemma aligned_bits: "aligned k a \<longleftrightarrow> (\<forall>n<k. \<not> bit a n)"
proof
  assume "aligned k a"
  then have "\<And>n. bit (take_bit k a) n = bit (0::addr) n" by (simp add: aligned_def)
  then show "\<forall>n<k. \<not> bit a n" by (simp add: bit_take_bit_iff)
next
  assume "\<forall>n<k. \<not> bit a n"
  then have "take_bit k a = 0" by (intro bit_word_eqI) (simp add: bit_take_bit_iff)
  then show "aligned k a" by (simp add: aligned_def)
qed

lemma aligned_Suc: "aligned (Suc k) a \<Longrightarrow> aligned k a"
  by (simp add: aligned_bits)

lemma aligned_add_or: "aligned (Suc k) a \<Longrightarrow> a + 2 ^ k = a OR 2 ^ k"
  by (rule disjunctive_add) (auto simp: aligned_bits bit_exp_iff)

lemma aligned_upper: "aligned (Suc k) a \<Longrightarrow> aligned k (a + 2 ^ k)"
  by (simp add: aligned_add_or) (auto simp: aligned_bits bit_or_iff bit_exp_iff)

lemma upper_xor: "aligned (Suc k) a \<Longrightarrow> (a + 2 ^ k) XOR 2 ^ k = a"
  by (simp add: aligned_add_or, intro bit_word_eqI) (auto simp: aligned_bits bit_or_iff bit_xor_iff bit_exp_iff)

lemma lower_xor: "aligned (Suc k) a \<Longrightarrow> a XOR 2 ^ k = a + 2 ^ k"
  by (simp add: aligned_add_or, intro bit_word_eqI) (auto simp: aligned_bits bit_or_iff bit_xor_iff bit_exp_iff)

lemma lower_and_not: "aligned (Suc k) a \<Longrightarrow> a AND NOT (2 ^ k) = a"
  by (intro bit_word_eqI) (auto simp: aligned_bits bit_and_iff bit_not_iff bit_exp_iff)

lemma aligned_merge: "aligned k a \<Longrightarrow> aligned (Suc k) (a AND NOT (2 ^ k))"
  by (auto simp: aligned_bits bit_and_iff bit_not_iff bit_exp_iff less_Suc_eq dest: bit_imp_le_length)

lemma aligned_xor: "aligned k a \<Longrightarrow> aligned k (a XOR 2 ^ k)"
  by (auto simp: aligned_bits bit_xor_iff bit_exp_iff)

lemma xor_neq: "k < 64 \<Longrightarrow> (a::addr) XOR 2 ^ k \<noteq> a"
proof
  assume k: "k < 64" and "a XOR 2 ^ k = a"
  then have "bit (a XOR 2 ^ k) k = bit a k" by simp
  with k show False by (simp add: bit_xor_iff bit_exp_iff)
qed

lemma and_not_cases: "(a::addr) AND NOT (2 ^ k) = a \<or> a AND NOT (2 ^ k) = a XOR 2 ^ k"
proof (cases "bit a k")
  case True
  then have "a AND NOT (2 ^ k) = a XOR 2 ^ k"
    by (intro bit_word_eqI) (auto simp: bit_and_iff bit_not_iff bit_xor_iff bit_exp_iff)
  then show ?thesis ..
next
  case False
  then have "a AND NOT (2 ^ k) = a"
    by (intro bit_word_eqI) (auto simp: bit_and_iff bit_not_iff bit_exp_iff)
  then show ?thesis ..
qed

lemma upper_nonzero: "aligned (Suc k) a \<Longrightarrow> k < 64 \<Longrightarrow> a + 2 ^ k \<noteq> 0"
proof
  assume a: "aligned (Suc k) a" and k: "k < 64" and "a + 2 ^ k = 0"
  then have "bit (a OR 2 ^ k) k = bit (0::addr) k" by (simp add: aligned_add_or)
  with k show False by (simp add: bit_or_iff bit_exp_iff)
qed

lemma aligned_not_sentinel: "aligned k a \<Longrightarrow> 0 < k \<Longrightarrow> a \<noteq> - 1"
  by (auto simp: aligned_bits)

lemma aligned_dvd: "aligned k a \<longleftrightarrow> 2 ^ k dvd unat a"
proof -
  have "take_bit k a = 0 \<longleftrightarrow> unat (take_bit k a) = 0" by (simp add: unsigned_eq_0_iff)
  also have "\<dots> \<longleftrightarrow> take_bit k (unat a) = 0" by (simp add: unsigned_take_bit_eq)
  also have "\<dots> \<longleftrightarrow> 2 ^ k dvd unat a" by (rule take_bit_eq_0_iff)
  finally show ?thesis by (simp add: aligned_def)
qed


lemma aligned_le: "aligned k a \<Longrightarrow> j \<le> k \<Longrightarrow> aligned j a"
  by (simp add: aligned_bits)

section \<open>deallocate\<close>

lemma scavenge_eq:
  "scavenge b xs = (if b \<in> set xs then Some (remove1 b xs) else None)"
  by (induction xs) auto

lemma upt_levels: "[0..<8] = [0, 1, 2, 3, 4, 5, 6, 7]"
  by (simp add: upt_rec)

lemma find_levelSizeOf:
  "l < 8 \<Longrightarrow> find (\<lambda>level. levelSizeOf level = levelSizeOf l) [0..<8] = Some l"
proof -
  assume "l < 8"
  then consider "l = 0" | "l = 1" | "l = 2" | "l = 3" | "l = 4" | "l = 5" | "l = 6" | "l = 7"
    by linarith
  then show ?thesis by cases (simp_all add: levelSizeOf_eq upt_levels)
qed

lemma levelSize_top: "l < 8 \<Longrightarrow> levelSize ! l = maxSize \<longleftrightarrow> l = 7"
proof -
  assume "l < 8"
  then consider "l = 0" | "l = 1" | "l = 2" | "l = 3" | "l = 4" | "l = 5" | "l = 6" | "l = 7"
    by linarith
  then show ?thesis by cases (simp_all add: levelSize_eq maxSize_eq)
qed

lemma levelSize_double: "l < 7 \<Longrightarrow> push_bit 1 (levelSize ! l) = levelSize ! (l + 1)"
proof -
  assume "l < 7"
  then consider "l = 0" | "l = 1" | "l = 2" | "l = 3" | "l = 4" | "l = 5" | "l = 6"
    by linarith
  then show ?thesis by cases (simp_all add: levelSize_eq)
qed

lemma bubble_refines:
  "lv < 8 \<Longrightarrow> asize alloc = levelSize ! lv \<Longrightarrow>
   \<exists>fl' a' lv'. lv' < 8 \<and> bubble fl alloc lv = Inr (fl', \<lparr>memory = a', asize = levelSize ! lv'\<rparr>, lv') \<and>
     mergeLoop_spec fl (memory alloc) lv (asize alloc) = Some (fl', a', lv')"
proof (induction fl alloc lv rule: bubble.induct)
  case (1 fl alloc lv)
  let ?b = "memory alloc XOR levelSize ! lv"
  show ?case
  proof (cases "asize alloc = maxSize")
    case True
    with 1(2,3) have "bubble fl alloc lv = Inr (fl, \<lparr>memory = memory alloc, asize = levelSize ! lv\<rparr>, lv)"
      by (subst bubble.simps) simp
    moreover from True have "mergeLoop_spec fl (memory alloc) lv (asize alloc) = Some (fl, memory alloc, lv)"
      by (subst mergeLoop_spec.simps) (simp add: maxSize_eq levelSizeOf_eq maxLevels_def)
    ultimately show ?thesis using 1(2) by blast
  next
    case False
    with 1(2,3) have lv: "lv < 7" using levelSize_top [of lv] by (cases "lv = 7") auto
    have ne: "asize alloc \<noteq> levelSizeOf (maxLevels - 1)"
      using False by (simp add: maxSize_eq levelSizeOf_eq maxLevels_def)
    show ?thesis
    proof (cases "?b \<in> set (fl lv)")
      case True
      let ?alloc' = "\<lparr>memory = memory alloc AND NOT (levelSize ! lv), asize = push_bit 1 (asize alloc)\<rparr>"
      let ?fl' = "fl(lv := remove1 ?b (fl lv))"
      have sc: "scavenge ?b (fl lv) = Some (remove1 ?b (fl lv))"
        using True by (simp add: scavenge_eq)
      have "asize ?alloc' = push_bit 1 (levelSize ! lv)"
        using 1(3) by simp
      also have "\<dots> = levelSize ! (lv + 1)"
        using lv by (rule levelSize_double)
      finally have sz: "asize ?alloc' = levelSize ! (lv + 1)" .
      have lvm: "lv < maxLevels" and lv1: "lv + 1 < 8"
        using lv by (simp_all add: maxLevels_def)
      from 1(1) [OF False lvm sc lv1 sz]
      obtain fl' a' lv' where r: "lv' < 8"
        "bubble ?fl' ?alloc' (lv + 1) = Inr (fl', \<lparr>memory = a', asize = levelSize ! lv'\<rparr>, lv')"
        "mergeLoop_spec ?fl' (memory ?alloc') (lv + 1) (asize ?alloc') = Some (fl', a', lv')"
        by blast
      have "bubble fl alloc lv = Inr (fl', \<lparr>memory = a', asize = levelSize ! lv'\<rparr>, lv')"
        using False lv sc r(2) by (subst bubble.simps) (simp add: maxLevels_def)
      moreover have "mergeLoop_spec fl (memory alloc) lv (asize alloc) = Some (fl', a', lv')"
        using ne True r(3) lv
        by (subst mergeLoop_spec.simps)
          (simp add: removeIfPresent_def levelSizeOf_nth push_bit_eq_mult mult.commute)
      ultimately show ?thesis using r(1) by blast
    next
      case nf: False
      have sc: "scavenge ?b (fl lv) = None"
        using nf by (simp add: scavenge_eq)
      have "bubble fl alloc lv = Inr (fl, \<lparr>memory = memory alloc, asize = levelSize ! lv\<rparr>, lv)"
        using False lv sc 1(3) by (subst bubble.simps) (simp add: maxLevels_def)
      moreover have "mergeLoop_spec fl (memory alloc) lv (asize alloc) = Some (fl, memory alloc, lv)"
        using ne nf lv
        by (subst mergeLoop_spec.simps) (simp add: removeIfPresent_def levelSizeOf_nth)
      ultimately show ?thesis using 1(2) by blast
    qed
  qed
qed

text \<open>
  Claim C3. For a handle with a non-null address and a valid level size,
  \<open>deallocate\<close> does what section 4.5 of the specification says, and returns: it
  starts at the level whose size is the handle's size; while the size is not
  \<open>maxSize\<close> it looks for the address \<open>address XOR levelSizeOf level\<close> on that level's
  list; when present, it removes that address and goes on one level up with the block
  \<open>address AND NOT levelSizeOf level\<close> of twice the size; when absent it stops; it then
  inserts the block at the level it reached and nulls the handle. Nothing but the
  buddy address is ever removed from a list.
\<close>

theorem deallocate_refines_spec:
  "memory alloc \<noteq> 0 \<Longrightarrow> l < maxLevels \<Longrightarrow> asize alloc = levelSizeOf l \<Longrightarrow>
   \<exists>r. deallocate_spec st alloc = Some r \<and> deallocate st alloc = Inr r"
proof -
  assume m: "memory alloc \<noteq> 0" and l: "l < maxLevels" and s: "asize alloc = levelSizeOf l"
  from l have l8: "l < 8" by (simp add: maxLevels_def)
  with s have s': "asize alloc = levelSize ! l" by (simp add: levelSizeOf_nth)
  from bubble_refines [OF l8 s', of "fList st"]
  obtain fl' a' lv' where r: "lv' < 8"
    "bubble (fList st) alloc l = Inr (fl', \<lparr>memory = a', asize = levelSize ! lv'\<rparr>, lv')"
    "mergeLoop_spec (fList st) (memory alloc) l (asize alloc) = Some (fl', a', lv')"
    by blast
  have "deallocate st alloc =
          Inr (\<lparr>memory = 0, asize = 0\<rparr>, st\<lparr>fList := fl'(lv' := a' # fl' lv')\<rparr>)"
    using m r(1,2) l8 by (simp add: deallocate_def s' lookupLevel_levelSize maxLevels_def)
  moreover have "deallocate_spec st alloc =
          Some (\<lparr>memory = 0, asize = 0\<rparr>, st\<lparr>fList := fl'(lv' := a' # fl' lv')\<rparr>)"
    using m r(3) l8 by (simp add: deallocate_spec_def s find_levelSizeOf maxLevels_def insert_fl_def)
  ultimately show ?thesis by simp
qed

text \<open>
  Releasing the 32-byte block at 4096 while its buddy 4128 is free: the two merge
  into the 64-byte block at 4096.
\<close>

theorem deallocate_refines_spec_witness:
  "memory \<lparr>memory = 4096, asize = 32\<rparr> \<noteq> 0 \<and> 0 < maxLevels \<and>
   asize \<lparr>memory = 4096, asize = 32\<rparr> = levelSizeOf 0 \<and>
   (\<exists>r. deallocate_spec \<lparr>fList = emptyStore(0 := [4128]), heap = \<lparr>brk = 8192, brk_max = 8192\<rparr>\<rparr>
           \<lparr>memory = 4096, asize = 32\<rparr> = Some r \<and>
        deallocate \<lparr>fList = emptyStore(0 := [4128]), heap = \<lparr>brk = 8192, brk_max = 8192\<rparr>\<rparr>
           \<lparr>memory = 4096, asize = 32\<rparr> = Inr r)"
  using deallocate_refines_spec [of "\<lparr>memory = 4096, asize = 32\<rparr>" 0
      "\<lparr>fList = emptyStore(0 := [4128]), heap = \<lparr>brk = 8192, brk_max = 8192\<rparr>\<rparr>"]
  by (simp add: maxLevels_def levelSizeOf_eq)

text \<open>
  Claim C9. \<open>deallocate\<close> on a handle with a null address returns at once: the state
  and the handle are as they were. A \<open>deallocate\<close> that released a block leaves the
  handle null with size 0, and releasing the handle as any \<open>deallocate\<close> left it
  changes nothing.
\<close>

theorem deallocate_null_handle:
  "(memory alloc = 0 \<longrightarrow> deallocate st alloc = Inr (alloc, st)) \<and>
   (memory alloc \<noteq> 0 \<longrightarrow> deallocate st alloc = Inr (alloc', st') \<longrightarrow>
      alloc' = \<lparr>memory = 0, asize = 0\<rparr>) \<and>
   (deallocate st alloc = Inr (alloc', st') \<longrightarrow> deallocate st' alloc' = Inr (alloc', st'))"
  by (auto simp: deallocate_def split: sum.splits prod.splits if_splits)


theorem deallocate_null_handle_witness:
  "deallocate \<lparr>fList = emptyStore, heap = \<lparr>brk = 8192, brk_max = 8192\<rparr>\<rparr> \<lparr>memory = 0, asize = 0\<rparr> =
     Inr (\<lparr>memory = 0, asize = 0\<rparr>, \<lparr>fList = emptyStore, heap = \<lparr>brk = 8192, brk_max = 8192\<rparr>\<rparr>) \<and>
   deallocate \<lparr>fList = emptyStore, heap = \<lparr>brk = 8192, brk_max = 8192\<rparr>\<rparr> \<lparr>memory = 4096, asize = 4096\<rparr> =
     Inr (\<lparr>memory = 0, asize = 0\<rparr>,
          \<lparr>fList = emptyStore(7 := [4096]), heap = \<lparr>brk = 8192, brk_max = 8192\<rparr>\<rparr>) \<and>
   deallocate \<lparr>fList = emptyStore(7 := [4096]), heap = \<lparr>brk = 8192, brk_max = 8192\<rparr>\<rparr>
     \<lparr>memory = 0, asize = 0\<rparr> =
     Inr (\<lparr>memory = 0, asize = 0\<rparr>,
          \<lparr>fList = emptyStore(7 := [4096]), heap = \<lparr>brk = 8192, brk_max = 8192\<rparr>\<rparr>)"
proof -
  have e: "deallocate \<lparr>fList = emptyStore, heap = \<lparr>brk = 8192, brk_max = 8192\<rparr>\<rparr>
             \<lparr>memory = 4096, asize = 4096\<rparr> =
           Inr (\<lparr>memory = 0, asize = 0\<rparr>,
                \<lparr>fList = emptyStore(7 := [4096]), heap = \<lparr>brk = 8192, brk_max = 8192\<rparr>\<rparr>)"
    by (simp add: deallocate_def lookupLevel_big bubble.simps maxSize_eq maxLevels_def
        emptyStore_def)
  from e
    deallocate_null_handle [of "\<lparr>memory = 4096, asize = 4096\<rparr>"
      "\<lparr>fList = emptyStore, heap = \<lparr>brk = 8192, brk_max = 8192\<rparr>\<rparr>"
      "\<lparr>memory = 0, asize = 0\<rparr>"
      "\<lparr>fList = emptyStore(7 := [4096]), heap = \<lparr>brk = 8192, brk_max = 8192\<rparr>\<rparr>"]
    deallocate_null_handle [of "\<lparr>memory = 0, asize = 0\<rparr>"
      "\<lparr>fList = emptyStore, heap = \<lparr>brk = 8192, brk_max = 8192\<rparr>\<rparr>"]
  show ?thesis by simp
qed

section \<open>allocate\<close>

lemma findLoop_find:
  "findLoop fl l =
     (case find (\<lambda>c. fl c \<noteq> []) [l..<maxLevels] of
        None \<Rightarrow> None
      | Some f \<Rightarrow> Some (fl(f := tl (fl f)), hd (fl f), f))"
proof (induction fl l rule: findLoop.induct)
  case (1 fl l)
  show ?case
  proof (cases "l < maxLevels")
    case False
    then show ?thesis by (subst findLoop.simps) simp
  next
    case True
    then have u: "[l..<maxLevels] = l # [l + 1..<maxLevels]" by (simp add: upt_conv_Cons)
    show ?thesis
    proof (cases "fl l")
      case Nil
      with True 1(1) show ?thesis by (subst findLoop.simps) (simp add: u)
    next
      case (Cons x xs)
      with True show ?thesis by (subst findLoop.simps) (simp add: u)
    qed
  qed
qed

lemma findLoop_None:
  "(\<forall>c. l \<le> c \<and> c < maxLevels \<longrightarrow> fl c = []) \<Longrightarrow> findLoop fl l = None"
  by (simp add: findLoop_find find_None_iff split: option.splits)

lemma findLoop_Some:
  "l \<le> f \<Longrightarrow> f < maxLevels \<Longrightarrow> (\<forall>c. l \<le> c \<and> c < f \<longrightarrow> fl c = []) \<Longrightarrow> fl f = x # xs \<Longrightarrow>
   findLoop fl l = Some (fl(f := xs), x, f)"
proof (induction fl l rule: findLoop.induct)
  case (1 fl l)
  show ?case
  proof (cases "l = f")
    case True
    with 1(3,5) show ?thesis by (subst findLoop.simps) simp
  next
    case False
    with 1(2) have lt: "l < f" by simp
    with 1(4) have e: "fl l = []" by simp
    from lt 1(3) have lm: "l < maxLevels" by simp
    have "findLoop fl l = findLoop fl (l + 1)"
      using lm e by (subst findLoop.simps) simp
    also have "\<dots> = Some (fl(f := xs), x, f)"
    proof (rule 1(1) [OF lm e _ 1(3) _ 1(5)])
      show "l + 1 \<le> f" using lt by simp
      show "\<forall>c. l + 1 \<le> c \<and> c < f \<longrightarrow> fl c = []" using 1(4) by simp
    qed
    finally show ?thesis .
  qed
qed

lemma first_nonempty:
  "(\<forall>c. (l::nat) \<le> c \<and> c < m \<longrightarrow> fl c = []) \<or>
   (\<exists>f x xs. l \<le> f \<and> f < m \<and> (\<forall>c. l \<le> c \<and> c < f \<longrightarrow> fl c = []) \<and> fl f = x # xs)"
proof (cases "\<exists>c. l \<le> c \<and> c < m \<and> fl c \<noteq> []")
  case False
  then show ?thesis by blast
next
  case True
  define P where "P c \<longleftrightarrow> l \<le> c \<and> c < m \<and> fl c \<noteq> []" for c
  define f where "f = (LEAST c. P c)"
  from True have "\<exists>c. P c" by (simp add: P_def)
  then have "P f" unfolding f_def by (rule LeastI_ex)
  then have P: "l \<le> f \<and> f < m \<and> fl f \<noteq> []" by (simp add: P_def)
  have min: "fl c = []" if c: "l \<le> c" "c < f" for c
  proof (rule ccontr)
    assume "fl c \<noteq> []"
    with c P have "P c" by (simp add: P_def)
    then have "f \<le> c" unfolding f_def by (rule Least_le)
    with c show False by simp
  qed
  from P obtain x xs where "fl f = x # xs" by (cases "fl f") auto
  with P min show ?thesis by blast
qed

lemma splitLoop_eq:
  "splitLoop fl mem cl l = (\<lambda>c. if l \<le> c \<and> c < cl then (mem + levelSize ! c) # fl c else fl c)"
proof (induction fl mem cl l rule: splitLoop.induct)
  case (1 fl mem currLevel level)
  show ?case
  proof (cases "level < currLevel")
    case False
    then show ?thesis by (subst splitLoop.simps) auto
  next
    case True
    have "splitLoop fl mem currLevel level =
          splitLoop (fl(currLevel - 1 := (mem + levelSize ! (currLevel - 1)) # fl (currLevel - 1)))
            mem (currLevel - 1) level"
      using True by (subst splitLoop.simps) simp
    also have "\<dots> = (\<lambda>c. if level \<le> c \<and> c < currLevel then (mem + levelSize ! c) # fl c else fl c)"
      using True by (subst 1 [OF True]) (auto simp: fun_eq_iff)
    finally show ?thesis .
  qed
qed

lemma split_spec_Suc:
  "split_spec fl mem (Suc f) t =
     (if t \<le> f then split_spec (insert_fl fl f (mem + levelSizeOf f)) mem f t else fl)"
  by (simp add: split_spec_def)

lemma split_spec_eq:
  "found \<le> 8 \<Longrightarrow>
   split_spec fl mem found t =
     (\<lambda>c. if t \<le> c \<and> c < found then (mem + levelSize ! c) # fl c else fl c)"
proof (induction found arbitrary: fl)
  case 0
  then show ?case by (simp add: split_spec_def)
next
  case (Suc f)
  then have f: "f < 8" by simp
  show ?case
  proof (cases "t \<le> f")
    case False
    then show ?thesis by (auto simp: split_spec_Suc fun_eq_iff)
  next
    case True
    have "split_spec fl mem (Suc f) t = split_spec (insert_fl fl f (mem + levelSizeOf f)) mem f t"
      using True by (simp add: split_spec_Suc)
    also have "\<dots> = (\<lambda>c. if t \<le> c \<and> c < Suc f then (mem + levelSize ! c) # fl c else fl c)"
      using True f Suc.prems
      by (subst Suc.IH) (auto simp: fun_eq_iff insert_fl_def levelSizeOf_nth)
    finally show ?thesis .
  qed
qed

lemma splitLoop_split_spec: "cl \<le> 8 \<Longrightarrow> splitLoop fl mem cl l = split_spec fl mem cl l"
  by (simp add: splitLoop_eq split_spec_eq)

lemma sbrk_fail: "sbrk h inc = (- 1, h') \<Longrightarrow> h' = h"
proof -
  assume a: "sbrk h inc = (- 1, h')"
  show ?thesis
  proof (cases "unat (brk h) + unat inc \<le> unat (brk_max h)")
    case False
    with a show ?thesis by (simp add: sbrk_def)
  next
    case True
    with a have b: "brk h = - 1" by (simp add: sbrk_def)
    have "brk_max h \<le> brk h" unfolding b by (rule max_word_max)
    then have "unat (brk_max h) \<le> unat (brk h)" by (simp add: word_le_nat_alt)
    with True have "unat inc = 0" by simp
    then have "inc = 0" by (simp add: unsigned_eq_0_iff)
    with a True show ?thesis by (simp add: sbrk_def)
  qed
qed

lemma allocate_refines:
  assumes H: "\<forall>l<maxLevels. 0 \<notin> set (fList st l) \<and> - 1 \<notin> set (fList st l)"
    and t: "lookupLevel n = Inr t"
  shows "allocate st n = allocate_spec st t"
proof -
  from t have t8: "t < 8" by (rule lookupLevel_lt)
  then have ls: "levelSizeOf t = levelSize ! t" by (rule levelSizeOf_nth)
  have m7: "maxLevels - Suc 0 = 7" by (simp add: maxLevels_def)
  obtain g h' where s: "sbrk (heap st) maxSize = (g, h')" by (cases "sbrk (heap st) maxSize")
  have "levelSizeOf (maxLevels - 1) = maxSize"
    by (simp add: levelSizeOf_eq maxSize_eq maxLevels_def)
  with s have gb: "growByMaxBlock (heap st) = (if g = - 1 then Inl BadAlloc else Inr (g, h'))"
    by (simp add: growByMaxBlock_def)
  show ?thesis
  proof (cases "find (\<lambda>c. fList st c \<noteq> []) [t..<maxLevels]")
    case None
    show ?thesis
    proof (cases "g = - 1")
      case True
      with s have "h' = heap st" using sbrk_fail by blast
      with None s True t show ?thesis
        by (simp add: allocate_def allocate_spec_def findLoop_find isEmpty_def growIfNull_def
            gb splitAndReturn_def)
    next
      case False
      with None s t show ?thesis
        by (simp add: allocate_def allocate_spec_def findLoop_find isEmpty_def growIfNull_def
            gb splitAndReturn_def m7 ls splitLoop_split_spec)
    qed
  next
    case (Some f)
    then have f: "f < maxLevels" "fList st f \<noteq> []"
      by (auto simp: find_Some_iff)
    then have "hd (fList st f) \<in> set (fList st f)" by simp
    with H f(1) have x: "hd (fList st f) \<noteq> 0" "hd (fList st f) \<noteq> - 1" by metis+
    from f(1) have f8: "f \<le> 8" by (simp add: maxLevels_def)
    from Some x t f8 show ?thesis
      by (simp add: allocate_def allocate_spec_def findLoop_find isEmpty_def takeHead_def
          splitAndReturn_def splitLoop_split_spec ls)
  qed
qed


lemma allocate_found:
  assumes t: "lookupLevel n = Inr t" and tf: "t \<le> f" and f: "f < 8"
    and e: "\<forall>c. t \<le> c \<and> c < f \<longrightarrow> fList st c = []"
    and x: "fList st f = x # xs" "x \<noteq> 0" "x \<noteq> - 1"
  shows "allocate st n =
     Inr (\<lparr>memory = x, asize = levelSize ! t\<rparr>,
          \<lparr>fList = (\<lambda>c. if t \<le> c \<and> c < f then [x + levelSize ! c]
                         else if c = f then xs else fList st c),
           heap = heap st\<rparr>)"
proof -
  from f have "f < maxLevels" by (simp add: maxLevels_def)
  from findLoop_Some [OF tf this e x(1)]
  have "findLoop (fList st) t = Some ((fList st)(f := xs), x, f)" .
  moreover have "splitLoop ((fList st)(f := xs)) x f t =
      (\<lambda>c. if t \<le> c \<and> c < f then [x + levelSize ! c] else if c = f then xs else fList st c)"
    using e by (auto simp: splitLoop_eq fun_eq_iff)
  ultimately show ?thesis
    using t x(2,3) by (simp add: allocate_def splitAndReturn_def)
qed

lemma allocate_grow:
  assumes t: "lookupLevel n = Inr t"
    and e: "\<forall>c. t \<le> c \<and> c < 8 \<longrightarrow> fList st c = []"
    and s: "sbrk (heap st) maxSize = (g, h')"
  shows "allocate st n =
     (if g = - 1 then Inl (BadAlloc, st)
      else Inr (\<lparr>memory = g, asize = levelSize ! t\<rparr>,
                \<lparr>fList = (\<lambda>c. if t \<le> c \<and> c < 7 then [g + levelSize ! c] else fList st c),
                 heap = h'\<rparr>))"
proof -
  from e have "findLoop (fList st) t = None"
    by (intro findLoop_None) (simp add: maxLevels_def)
  moreover have "splitLoop (fList st) g 7 t =
      (\<lambda>c. if t \<le> c \<and> c < 7 then [g + levelSize ! c] else fList st c)"
    using e by (auto simp: splitLoop_eq fun_eq_iff)
  moreover have "g = - 1 \<Longrightarrow> h' = heap st" using s sbrk_fail by blast
  ultimately show ?thesis
    using t s by (simp add: allocate_def growIfNull_def splitAndReturn_def maxLevels_def)
qed

lemma aligned_add_self: "aligned k a \<Longrightarrow> aligned k (a + 2 ^ k)"
proof -
  assume "aligned k a"
  then have "2 ^ k dvd a" by (simp add: aligned_def take_bit_eq_0_iff)
  then have "2 ^ k dvd a + 2 ^ k" by simp
  then show ?thesis by (simp add: aligned_def take_bit_eq_0_iff)
qed

lemma sbrk_ok:
  assumes ok: "os_ok h" and s: "sbrk h maxSize = (g, h')" and g: "g \<noteq> - 1"
  shows "g = brk h" and "aligned 12 g" and "g \<noteq> 0" and "os_ok h'"
    and "h' = h\<lparr>brk := brk h + maxSize\<rparr>"
proof -
  from s g have c: "unat (brk h) + unat maxSize \<le> unat (brk_max h)"
    by (auto simp: sbrk_def split: if_splits)
  with s show e1: "g = brk h" and e2: "h' = h\<lparr>brk := brk h + maxSize\<rparr>"
    by (auto simp: sbrk_def)
  from ok have a: "aligned 12 (brk h)" and nz: "brk h \<noteq> 0" by (simp_all add: os_ok_def)
  from a e1 show "aligned 12 g" by simp
  from nz e1 show "g \<noteq> 0" by simp
  have "unat (brk_max h) < 2 ^ 64" using unsigned_less [of "brk_max h"] by simp
  with c have "unat (brk h) + unat maxSize < 2 ^ LENGTH(64)" by simp
  then have "unat (brk h + maxSize) = unat (brk h) + unat maxSize"
    by (simp only: unat_add_lem)
  then have "unat (brk h + maxSize) \<noteq> 0" by (simp add: maxSize_eq)
  then have nz': "brk h + maxSize \<noteq> 0" by (simp add: unsigned_eq_0_iff)
  have "aligned 12 (brk h + 2 ^ 12)" using a by (rule aligned_add_self)
  then have "aligned 12 (brk h + maxSize)" by (simp add: maxSize_eq)
  with nz' show "os_ok h'" unfolding e2 by (simp add: os_ok_def)
qed

lemma split_block_wf:
  assumes a: "aligned (f + 5) x" and c: "c < f" "f < 8"
  shows "aligned (c + 5) (x + levelSize ! c) \<and> x + levelSize ! c \<noteq> 0 \<and>
         (x + levelSize ! c) XOR levelSize ! c \<noteq> x + levelSize ! c"
proof -
  define k where "k = c + 5"
  from c have "c < 8" by simp
  then have ls: "levelSize ! c = 2 ^ k" unfolding k_def by (rule levelSize_nth)
  from c have le: "Suc k \<le> f + 5" and k64: "k < 64" by (simp_all add: k_def)
  from a le have s: "aligned (Suc k) x" by (rule aligned_le)
  from s have 1: "aligned k (x + 2 ^ k)" by (rule aligned_upper)
  from s k64 have 2: "x + 2 ^ k \<noteq> 0" by (rule upper_nonzero)
  from k64 have 3: "(x + 2 ^ k) XOR 2 ^ k \<noteq> x + 2 ^ k" by (rule xor_neq)
  from 1 2 3 show ?thesis unfolding ls k_def by blast
qed

lemma wf_handle_I: "l < 8 \<Longrightarrow> aligned (l + 5) m \<Longrightarrow> m \<noteq> 0 \<Longrightarrow> wf_handle \<lparr>memory = m, asize = levelSize ! l\<rparr>"
  by (auto simp: wf_handle_def maxLevels_def)

lemma wf_free_alloc:
  assumes wf: "wf_free fl"
    and sp: "\<And>c. c < f \<Longrightarrow> aligned (c + 5) (u c) \<and> u c \<noteq> 0"
    and xs: "set xs \<subseteq> set (fl f)"
  shows "wf_free (\<lambda>c. if t \<le> c \<and> c < f then [u c] else if c = f then xs else fl c)"
  unfolding wf_free_def
proof (intro allI impI ballI)
  fix l a
  assume l: "l < maxLevels"
    and a: "a \<in> set (if t \<le> l \<and> l < f then [u l] else if l = f then xs else fl l)"
  consider "t \<le> l \<and> l < f" | "\<not> (t \<le> l \<and> l < f)" "l = f" | "\<not> (t \<le> l \<and> l < f)" "l \<noteq> f"
    by blast
  then show "aligned (l + 5) a \<and> a \<noteq> 0"
  proof cases
    case 1
    with a have "a = u l" by simp
    with 1 sp [of l] show ?thesis by simp
  next
    case 2
    with a xs have "a \<in> set (fl l)" by auto
    with wf l show ?thesis by (simp add: wf_free_def)
  next
    case 3
    with a have "a \<in> set (fl l)" by simp
    with wf l show ?thesis by (simp add: wf_free_def)
  qed
qed

lemma no_buddies_alloc:
  assumes nb: "no_buddies fl"
    and sp: "\<And>c. c < f \<Longrightarrow> u c XOR levelSize ! c \<noteq> u c"
    and xs: "set xs \<subseteq> set (fl f)"
  shows "no_buddies (\<lambda>c. if t \<le> c \<and> c < f then [u c] else if c = f then xs else fl c)"
  unfolding no_buddies_def
proof (intro allI impI ballI)
  fix l a
  assume l: "l < maxLevels - 1"
    and a: "a \<in> set (if t \<le> l \<and> l < f then [u l] else if l = f then xs else fl l)"
  consider "t \<le> l \<and> l < f" | "\<not> (t \<le> l \<and> l < f)" "l = f" | "\<not> (t \<le> l \<and> l < f)" "l \<noteq> f"
    by blast
  then show "a XOR levelSize ! l
      \<notin> set (if t \<le> l \<and> l < f then [u l] else if l = f then xs else fl l)"
  proof cases
    case 1
    with a have "a = u l" by simp
    with 1 sp [of l] show ?thesis by simp
  next
    case 2
    with a xs have "a \<in> set (fl l)" by auto
    with nb l have "a XOR levelSize ! l \<notin> set (fl l)" by (simp add: no_buddies_def)
    with 2 xs show ?thesis by auto
  next
    case 3
    with a have "a \<in> set (fl l)" by simp
    with nb l have "a XOR levelSize ! l \<notin> set (fl l)" by (simp add: no_buddies_def)
    with 3 show ?thesis by auto
  qed
qed

section \<open>The invariant of the reachable states\<close>

lemma wf_free_hd:
  assumes "wf_free fl" and "f < 8" and "fl f = x # xs"
  shows "aligned (f + 5) x" and "x \<noteq> 0"
proof -
  from assms(1,2) have "\<forall>a\<in>set (fl f). aligned (f + 5) a \<and> a \<noteq> 0"
    by (simp add: wf_free_def maxLevels_def)
  with assms(3) show "aligned (f + 5) x" and "x \<noteq> 0" by simp_all
qed

lemma inv_found:
  assumes wf: "wf_free fl" and nb: "no_buddies fl"
    and tf: "t \<le> f" and f: "f < 8" and x: "fl f = x # xs"
  shows "wf_free (\<lambda>c. if t \<le> c \<and> c < f then [x + levelSize ! c] else if c = f then xs else fl c)"
    and "no_buddies (\<lambda>c. if t \<le> c \<and> c < f then [x + levelSize ! c] else if c = f then xs else fl c)"
    and "wf_handle \<lparr>memory = x, asize = levelSize ! t\<rparr>"
proof -
  from wf_free_hd [OF wf f x] have xa: "aligned (f + 5) x" and xz: "x \<noteq> 0" .
  have sp: "aligned (c + 5) (x + levelSize ! c) \<and> x + levelSize ! c \<noteq> 0 \<and>
         (x + levelSize ! c) XOR levelSize ! c \<noteq> x + levelSize ! c" if "c < f" for c
    using xa that f by (rule split_block_wf)
  have sub: "set xs \<subseteq> set (fl f)" using x by auto
  show "wf_free (\<lambda>c. if t \<le> c \<and> c < f then [x + levelSize ! c] else if c = f then xs else fl c)"
  proof (rule wf_free_alloc [OF wf _ sub])
    fix c assume "c < f"
    from sp [OF this] show "aligned (c + 5) (x + levelSize ! c) \<and> x + levelSize ! c \<noteq> 0"
      by blast
  qed
  show "no_buddies (\<lambda>c. if t \<le> c \<and> c < f then [x + levelSize ! c] else if c = f then xs else fl c)"
  proof (rule no_buddies_alloc [OF nb _ sub])
    fix c assume "c < f"
    from sp [OF this] show "(x + levelSize ! c) XOR levelSize ! c \<noteq> x + levelSize ! c"
      by blast
  qed
  from tf f have t8: "t < 8" by simp
  from tf have "t + 5 \<le> f + 5" by simp
  with xa have "aligned (t + 5) x" by (rule aligned_le)
  with t8 show "wf_handle \<lparr>memory = x, asize = levelSize ! t\<rparr>"
    using xz by (rule wf_handle_I)
qed

lemma inv_grow:
  assumes wf: "wf_free fl" and nb: "no_buddies fl"
    and t: "t < 8" and ga: "aligned 12 g" and gz: "g \<noteq> 0"
  shows "wf_free (\<lambda>c. if t \<le> c \<and> c < 7 then [g + levelSize ! c] else fl c)"
    and "no_buddies (\<lambda>c. if t \<le> c \<and> c < 7 then [g + levelSize ! c] else fl c)"
    and "wf_handle \<lparr>memory = g, asize = levelSize ! t\<rparr>"
proof -
  have eq: "(\<lambda>c. if t \<le> c \<and> c < 7 then [g + levelSize ! c] else fl c) =
            (\<lambda>c. if t \<le> c \<and> c < 7 then [g + levelSize ! c] else if c = 7 then fl 7 else fl c)"
    by (rule ext) simp
  have g7: "aligned (7 + 5) g" using ga by simp
  have sp: "aligned (c + 5) (g + levelSize ! c) \<and> g + levelSize ! c \<noteq> 0 \<and>
         (g + levelSize ! c) XOR levelSize ! c \<noteq> g + levelSize ! c" if "c < 7" for c
    using g7 that by (rule split_block_wf) simp
  have "wf_free (\<lambda>c. if t \<le> c \<and> c < 7 then [g + levelSize ! c] else if c = 7 then fl 7 else fl c)"
  proof (rule wf_free_alloc [OF wf _ subset_refl])
    fix c :: nat assume "c < 7"
    from sp [OF this] show "aligned (c + 5) (g + levelSize ! c) \<and> g + levelSize ! c \<noteq> 0"
      by blast
  qed
  then show "wf_free (\<lambda>c. if t \<le> c \<and> c < 7 then [g + levelSize ! c] else fl c)"
    by (subst eq)
  have "no_buddies (\<lambda>c. if t \<le> c \<and> c < 7 then [g + levelSize ! c] else if c = 7 then fl 7 else fl c)"
  proof (rule no_buddies_alloc [OF nb _ subset_refl])
    fix c :: nat assume "c < 7"
    from sp [OF this] show "(g + levelSize ! c) XOR levelSize ! c \<noteq> g + levelSize ! c"
      by blast
  qed
  then show "no_buddies (\<lambda>c. if t \<le> c \<and> c < 7 then [g + levelSize ! c] else fl c)"
    by (subst eq)
  from t have "t + 5 \<le> 7 + 5" by simp
  with g7 have "aligned (t + 5) g" by (rule aligned_le)
  with t show "wf_handle \<lparr>memory = g, asize = levelSize ! t\<rparr>"
    using gz by (rule wf_handle_I)
qed

lemma allocate_cases:
  assumes wf: "wf_free (fList st)" and ok: "os_ok (heap st)"
    and al: "allocate st n = Inr (a, st')"
  obtains (grow) t g h' where "lookupLevel n = Inr t" "t < 8"
      "\<forall>c. t \<le> c \<and> c < 8 \<longrightarrow> fList st c = []"
      "sbrk (heap st) maxSize = (g, h')" "g \<noteq> - 1"
      "a = \<lparr>memory = g, asize = levelSize ! t\<rparr>"
      "fList st' = (\<lambda>c. if t \<le> c \<and> c < 7 then [g + levelSize ! c] else fList st c)"
      "heap st' = h'"
  | (found) t f x xs where "lookupLevel n = Inr t" "t \<le> f" "f < 8"
      "\<forall>c. t \<le> c \<and> c < f \<longrightarrow> fList st c = []" "fList st f = x # xs"
      "a = \<lparr>memory = x, asize = levelSize ! t\<rparr>"
      "fList st' = (\<lambda>c. if t \<le> c \<and> c < f then [x + levelSize ! c]
                         else if c = f then xs else fList st c)"
      "heap st' = heap st"
proof -
  from al obtain t where t: "lookupLevel n = Inr t"
    by (cases "lookupLevel n") (simp_all add: allocate_def)
  then have t8: "t < 8" by (rule lookupLevel_lt)
  from first_nonempty [of t 8 "fList st"] show thesis
  proof
    assume e: "\<forall>c. t \<le> c \<and> c < 8 \<longrightarrow> fList st c = []"
    obtain g h' where s: "sbrk (heap st) maxSize = (g, h')" by (cases "sbrk (heap st) maxSize")
    note ag = allocate_grow [OF t e s]
    have g: "g \<noteq> - 1"
    proof
      assume "g = - 1"
      with ag have "allocate st n = Inl (BadAlloc, st)" by simp
      with al show False by simp
    qed
    with ag have "allocate st n = Inr (\<lparr>memory = g, asize = levelSize ! t\<rparr>,
                \<lparr>fList = (\<lambda>c. if t \<le> c \<and> c < 7 then [g + levelSize ! c] else fList st c),
                 heap = h'\<rparr>)" by simp
    with al have "a = \<lparr>memory = g, asize = levelSize ! t\<rparr>"
      and "st' = \<lparr>fList = (\<lambda>c. if t \<le> c \<and> c < 7 then [g + levelSize ! c] else fList st c),
                 heap = h'\<rparr>" by simp_all
    then have "a = \<lparr>memory = g, asize = levelSize ! t\<rparr>"
      and "fList st' = (\<lambda>c. if t \<le> c \<and> c < 7 then [g + levelSize ! c] else fList st c)"
      and "heap st' = h'" by simp_all
    with t t8 e s g show thesis by (rule grow)
  next
    assume "\<exists>f x xs. t \<le> f \<and> f < 8 \<and> (\<forall>c. t \<le> c \<and> c < f \<longrightarrow> fList st c = []) \<and> fList st f = x # xs"
    then obtain f x xs where tf: "t \<le> f" and f: "f < 8"
      and e: "\<forall>c. t \<le> c \<and> c < f \<longrightarrow> fList st c = []" and x: "fList st f = x # xs" by blast
    from wf_free_hd [OF wf f x] have xa: "aligned (f + 5) x" and xz: "x \<noteq> 0" .
    from xa have xs: "x \<noteq> - 1" by (rule aligned_not_sentinel) simp
    from allocate_found [OF t tf f e x xz xs] al
    have "a = \<lparr>memory = x, asize = levelSize ! t\<rparr>"
      and "st' = \<lparr>fList = (\<lambda>c. if t \<le> c \<and> c < f then [x + levelSize ! c]
                         else if c = f then xs else fList st c), heap = heap st\<rparr>"
      by simp_all
    then have "a = \<lparr>memory = x, asize = levelSize ! t\<rparr>"
      and "fList st' = (\<lambda>c. if t \<le> c \<and> c < f then [x + levelSize ! c]
                         else if c = f then xs else fList st c)"
      and "heap st' = heap st" by simp_all
    with t tf f e x show thesis by (rule found)
  qed
qed

lemma inv_I:
  "wf_free (fList st) \<Longrightarrow> no_buddies (fList st) \<Longrightarrow> os_ok (heap st) \<Longrightarrow>
   (\<forall>a\<in>set live. wf_handle a) \<Longrightarrow> sys_inv (st, live)"
  by (simp add: sys_inv_def)

lemma inv_D:
  assumes "sys_inv (st, live)"
  shows "wf_free (fList st)" and "no_buddies (fList st)" and "os_ok (heap st)"
    and "\<forall>a\<in>set live. wf_handle a"
  using assms by (simp_all add: sys_inv_def)

lemma allocate_inv:
  assumes i: "sys_inv (st, live)" and al: "allocate st n = Inr (a, st')"
  shows "sys_inv (st', a # live)"
proof -
  note wf = inv_D(1) [OF i] and nb = inv_D(2) [OF i] and ok = inv_D(3) [OF i]
    and lv = inv_D(4) [OF i]
  from wf ok al show ?thesis
  proof (cases rule: allocate_cases)
    case (grow t g h')
    from sbrk_ok [OF ok grow(4,5)] have ga: "aligned 12 g" and gz: "g \<noteq> 0" and ok': "os_ok h'"
      by blast+
    note r = inv_grow [OF wf nb grow(2) ga gz]
    show ?thesis
    proof (rule inv_I)
      show "wf_free (fList st')" unfolding grow(7) by (rule r(1))
      show "no_buddies (fList st')" unfolding grow(7) by (rule r(2))
      show "os_ok (heap st')" unfolding grow(8) by (rule ok')
      from r(3) lv show "\<forall>a\<in>set (a # live). wf_handle a" unfolding grow(6) by simp
    qed
  next
    case (found t f x xs)
    note r = inv_found [OF wf nb found(2,3,5)]
    show ?thesis
    proof (rule inv_I)
      show "wf_free (fList st')" unfolding found(7) by (rule r(1))
      show "no_buddies (fList st')" unfolding found(7) by (rule r(2))
      show "os_ok (heap st')" unfolding found(8) by (rule ok)
      from r(3) lv show "\<forall>a\<in>set (a # live). wf_handle a" unfolding found(6) by simp
    qed
  qed
qed

lemma allocate_fail_state:
  assumes wf: "wf_free (fList st)" and al: "allocate st n = Inl (BadAlloc, st')"
  shows "st' = st"
proof (cases "lookupLevel n")
  case (Inl e)
  with al show ?thesis by (simp add: allocate_def)
next
  case (Inr t)
  note t = Inr
  from first_nonempty [of t 8 "fList st"] show ?thesis
  proof
    assume e: "\<forall>c. t \<le> c \<and> c < 8 \<longrightarrow> fList st c = []"
    obtain g h' where s: "sbrk (heap st) maxSize = (g, h')" by (cases "sbrk (heap st) maxSize")
    from allocate_grow [OF t e s] al show ?thesis by (cases "g = - 1") simp_all
  next
    assume "\<exists>f x xs. t \<le> f \<and> f < 8 \<and> (\<forall>c. t \<le> c \<and> c < f \<longrightarrow> fList st c = []) \<and> fList st f = x # xs"
    then obtain f x xs where tf: "t \<le> f" and f: "f < 8"
      and e: "\<forall>c. t \<le> c \<and> c < f \<longrightarrow> fList st c = []" and x: "fList st f = x # xs" by blast
    from wf_free_hd [OF wf f x] have xa: "aligned (f + 5) x" and xz: "x \<noteq> 0" .
    from xa have xs: "x \<noteq> - 1" by (rule aligned_not_sentinel) simp
    from allocate_found [OF t tf f e x xz xs] al show ?thesis by simp
  qed
qed

lemma xor_xor_cancel: "(a XOR b) XOR b = (a :: addr)"
  by (simp add: xor.assoc)

lemma wf_free_remove:
  assumes "wf_free fl" and "set xs \<subseteq> set (fl lv)"
  shows "wf_free (fl(lv := xs))"
  unfolding wf_free_def
proof (intro allI impI ballI)
  fix l a assume l: "l < maxLevels" and a: "a \<in> set ((fl(lv := xs)) l)"
  from a assms(2) have "a \<in> set (fl l)" by (cases "l = lv") auto
  with assms(1) l show "aligned (l + 5) a \<and> a \<noteq> 0" by (simp add: wf_free_def)
qed

lemma no_buddies_remove:
  assumes "no_buddies fl" and "set xs \<subseteq> set (fl lv)"
  shows "no_buddies (fl(lv := xs))"
  unfolding no_buddies_def
proof (intro allI impI ballI)
  fix l a assume l: "l < maxLevels - 1" and a: "a \<in> set ((fl(lv := xs)) l)"
  from a assms(2) have "a \<in> set (fl l)" by (cases "l = lv") auto
  with assms(1) l have "a XOR levelSize ! l \<notin> set (fl l)" by (simp add: no_buddies_def)
  with assms(2) show "a XOR levelSize ! l \<notin> set ((fl(lv := xs)) l)" by (cases "l = lv") auto
qed

lemma wf_free_insert:
  assumes "wf_free fl" and "aligned (lv + 5) m" and "m \<noteq> 0"
  shows "wf_free (fl(lv := m # fl lv))"
  unfolding wf_free_def
proof (intro allI impI ballI)
  fix l a assume l: "l < maxLevels" and a: "a \<in> set ((fl(lv := m # fl lv)) l)"
  show "aligned (l + 5) a \<and> a \<noteq> 0"
  proof (cases "l = lv \<and> a = m")
    case True
    with assms(2,3) show ?thesis by simp
  next
    case False
    with a have "a \<in> set (fl l)" by (cases "l = lv") auto
    with assms(1) l show ?thesis by (simp add: wf_free_def)
  qed
qed

lemma no_buddies_insert:
  assumes nb: "no_buddies fl" and lv: "lv < 8"
    and m: "lv < 7 \<longrightarrow> m XOR levelSize ! lv \<notin> set (fl lv)"
  shows "no_buddies (fl(lv := m # fl lv))"
  unfolding no_buddies_def
proof (intro allI impI ballI)
  fix l a assume l: "l < maxLevels - 1" and a: "a \<in> set ((fl(lv := m # fl lv)) l)"
  from l have l7: "l < 7" by (simp add: maxLevels_def)
  show "a XOR levelSize ! l \<notin> set ((fl(lv := m # fl lv)) l)"
  proof (cases "l = lv")
    case False
    with a have "a \<in> set (fl l)" by simp
    with nb l have "a XOR levelSize ! l \<notin> set (fl l)" by (simp add: no_buddies_def)
    with False show ?thesis by simp
  next
    case True
    with l7 m have mb: "m XOR levelSize ! l \<notin> set (fl l)" by simp
    from l7 have ls: "levelSize ! l = 2 ^ (l + 5)" by (simp add: levelSize_nth)
    from l7 have k: "l + 5 < 64" by simp
    show ?thesis
    proof (cases "a = m")
      case am: True
      from k have "m XOR 2 ^ (l + 5) \<noteq> m" by (rule xor_neq)
      with mb am True ls show ?thesis by simp
    next
      case False
      with a True have ain: "a \<in> set (fl l)" by simp
      with nb l have n1: "a XOR levelSize ! l \<notin> set (fl l)" by (simp add: no_buddies_def)
      have n2: "a XOR levelSize ! l \<noteq> m"
      proof
        assume "a XOR levelSize ! l = m"
        then have "m XOR levelSize ! l = (a XOR levelSize ! l) XOR levelSize ! l" by simp
        then have "m XOR levelSize ! l = a" by (simp only: xor_xor_cancel)
        with mb ain show False by simp
      qed
      from n1 n2 True show ?thesis by simp
    qed
  qed
qed

lemma merged_nonzero:
  assumes "m \<noteq> 0" and "m XOR 2 ^ k \<noteq> (0 :: addr)"
  shows "m AND NOT (2 ^ k) \<noteq> 0"
  using and_not_cases [of m k] assms by auto

lemma bubble_inv:
  "wf_free fl \<Longrightarrow> no_buddies fl \<Longrightarrow> lv < 8 \<Longrightarrow> asize alloc = levelSize ! lv \<Longrightarrow>
   aligned (lv + 5) (memory alloc) \<Longrightarrow> memory alloc \<noteq> 0 \<Longrightarrow>
   \<exists>fl' m' lv'. bubble fl alloc lv = Inr (fl', \<lparr>memory = m', asize = levelSize ! lv'\<rparr>, lv') \<and>
     lv' < 8 \<and> wf_free fl' \<and> no_buddies fl' \<and> aligned (lv' + 5) m' \<and> m' \<noteq> 0 \<and>
     (lv' < 7 \<longrightarrow> m' XOR levelSize ! lv' \<notin> set (fl' lv'))"
proof (induction fl alloc lv rule: bubble.induct)
  case (1 fl alloc lv)
  note wf = 1(2) and nb = 1(3) and lv8 = 1(4) and sz = 1(5) and al = 1(6) and nz = 1(7)
  let ?b = "memory alloc XOR levelSize ! lv"
  have self: "alloc = \<lparr>memory = memory alloc, asize = levelSize ! lv\<rparr>"
    using sz by simp
  show ?case
  proof (cases "asize alloc = maxSize")
    case True
    with lv8 sz have lv7: "lv = 7" using levelSize_top [of lv] by simp
    from True have "bubble fl alloc lv = Inr (fl, alloc, lv)"
      by (subst bubble.simps) simp
    with self have "bubble fl alloc lv = Inr (fl, \<lparr>memory = memory alloc, asize = levelSize ! lv\<rparr>, lv)"
      by simp
    with wf nb lv8 al nz lv7 show ?thesis by blast
  next
    case False
    with lv8 sz have lv: "lv < 7" using levelSize_top [of lv] by (cases "lv = 7") auto
    then have ls: "levelSize ! lv = 2 ^ (lv + 5)" by (simp add: levelSize_nth)
    have lvm: "lv < maxLevels" using lv by (simp add: maxLevels_def)
    show ?thesis
    proof (cases "?b \<in> set (fl lv)")
      case nf: False
      then have sc: "scavenge ?b (fl lv) = None" by (simp add: scavenge_eq)
      have "bubble fl alloc lv = Inr (fl, alloc, lv)"
        using False lvm sc by (subst bubble.simps) simp
      with self have "bubble fl alloc lv =
          Inr (fl, \<lparr>memory = memory alloc, asize = levelSize ! lv\<rparr>, lv)" by simp
      with wf nb lv8 al nz nf show ?thesis by blast
    next
      case True
      let ?alloc' = "\<lparr>memory = memory alloc AND NOT (levelSize ! lv), asize = push_bit 1 (asize alloc)\<rparr>"
      let ?fl' = "fl(lv := remove1 ?b (fl lv))"
      have sc: "scavenge ?b (fl lv) = Some (remove1 ?b (fl lv))"
        using True by (simp add: scavenge_eq)
      have sub: "set (remove1 ?b (fl lv)) \<subseteq> set (fl lv)" by (rule set_remove1_subset)
      have wf': "wf_free ?fl'" using wf sub by (rule wf_free_remove)
      have nb': "no_buddies ?fl'" using nb sub by (rule no_buddies_remove)
      have lv1: "lv + 1 < 8" using lv by simp
      have "asize ?alloc' = push_bit 1 (levelSize ! lv)" using sz by simp
      also have "\<dots> = levelSize ! (lv + 1)" using lv by (rule levelSize_double)
      finally have sz': "asize ?alloc' = levelSize ! (lv + 1)" .
      have "aligned (Suc (lv + 5)) (memory alloc AND NOT (2 ^ (lv + 5)))"
        using al by (rule aligned_merge)
      then have al': "aligned (lv + 1 + 5) (memory ?alloc')" by (simp add: ls)
      from wf lvm True have "?b \<noteq> 0" by (auto simp: wf_free_def)
      then have "memory alloc XOR 2 ^ (lv + 5) \<noteq> 0" by (simp add: ls)
      with nz have "memory alloc AND NOT (2 ^ (lv + 5)) \<noteq> 0" by (rule merged_nonzero)
      then have nz': "memory ?alloc' \<noteq> 0" by (simp add: ls)
      from 1(1) [OF False lvm sc wf' nb' lv1 sz' al' nz']
      obtain fl' m' lv' where
        r: "bubble ?fl' ?alloc' (lv + 1) = Inr (fl', \<lparr>memory = m', asize = levelSize ! lv'\<rparr>, lv')"
        and p: "lv' < 8" "wf_free fl'" "no_buddies fl'" "aligned (lv' + 5) m'" "m' \<noteq> 0"
          "lv' < 7 \<longrightarrow> m' XOR levelSize ! lv' \<notin> set (fl' lv')"
        by blast
      have "bubble fl alloc lv = Inr (fl', \<lparr>memory = m', asize = levelSize ! lv'\<rparr>, lv')"
        using False lvm sc r by (subst bubble.simps) simp
      with p show ?thesis by blast
    qed
  qed
qed

lemma deallocate_inv:
  assumes wf: "wf_free (fList st)" and nb: "no_buddies (fList st)" and h: "wf_handle a"
  shows "\<exists>st'. deallocate st a = Inr (\<lparr>memory = 0, asize = 0\<rparr>, st') \<and>
           wf_free (fList st') \<and> no_buddies (fList st') \<and> heap st' = heap st"
proof -
  from h obtain l where l: "l < 8" and sz: "asize a = levelSize ! l"
    and al: "aligned (l + 5) (memory a)" and nz: "memory a \<noteq> 0"
    by (auto simp: wf_handle_def maxLevels_def)
  from bubble_inv [OF wf nb l sz al nz]
  obtain fl' m' lv' where
    r: "bubble (fList st) a l = Inr (fl', \<lparr>memory = m', asize = levelSize ! lv'\<rparr>, lv')"
    and p: "lv' < 8" "wf_free fl'" "no_buddies fl'" "aligned (lv' + 5) m'" "m' \<noteq> 0"
      "lv' < 7 \<longrightarrow> m' XOR levelSize ! lv' \<notin> set (fl' lv')"
    by blast
  let ?st' = "st\<lparr>fList := fl'(lv' := m' # fl' lv')\<rparr>"
  have "deallocate st a = Inr (\<lparr>memory = 0, asize = 0\<rparr>, ?st')"
    using nz r p(1) l by (simp add: deallocate_def sz lookupLevel_levelSize maxLevels_def)
  moreover have "wf_free (fList ?st')"
    using wf_free_insert [OF p(2,4,5)] by simp
  moreover have "no_buddies (fList ?st')"
    using no_buddies_insert [OF p(3,1,6)] by simp
  ultimately show ?thesis by auto
qed

lemma step_inv:
  assumes i: "sys_inv s" and st: "step s x = Some s'"
  shows "sys_inv s'"
proof -
  obtain st live where s: "s = (st, live)" by (cases s)
  note i' = i [unfolded s]
  note wf = inv_D(1) [OF i'] and nb = inv_D(2) [OF i'] and ok = inv_D(3) [OF i']
    and lv = inv_D(4) [OF i']
  show ?thesis
  proof (cases x)
    case (Alloc n)
    show ?thesis
    proof (cases "allocate st n")
      case (Inr r)
      obtain a st' where r: "r = (a, st')" by (cases r)
      from st have "s' = (st', a # live)" by (simp add: s Alloc Inr r)
      moreover from i' Inr have "sys_inv (st', a # live)" unfolding r by (rule allocate_inv)
      ultimately show ?thesis by simp
    next
      case (Inl r)
      obtain e st' where r: "r = (e, st')" by (cases r)
      from st have e: "e = BadAlloc" and s': "s' = (st', live)"
        by (cases e; simp add: s Alloc Inl r)+
      from wf Inl have "st' = st" unfolding r e by (rule allocate_fail_state)
      with s' i' show ?thesis by simp
    qed
  next
    case (Free k)
    from st have k: "k < length live" by (simp add: s Free split: if_splits)
    then have "live ! k \<in> set live" by simp
    with lv have h: "wf_handle (live ! k)" by simp
    from deallocate_inv [OF wf nb h] obtain st' where
      d: "deallocate st (live ! k) = Inr (\<lparr>memory = 0, asize = 0\<rparr>, st')"
      and p: "wf_free (fList st')" "no_buddies (fList st')" "heap st' = heap st" by blast
    from st k d have s': "s' = (st', take k live @ drop (Suc k) live)" by (simp add: s Free)
    have "set (take k live @ drop (Suc k) live) \<subseteq> set live"
      using set_take_subset [of k live] set_drop_subset [of "Suc k" live] by auto
    with lv have "\<forall>a\<in>set (take k live @ drop (Suc k) live). wf_handle a" by blast
    with p ok show ?thesis unfolding s' by (intro inv_I) simp_all
  qed
qed

lemma run_inv: "sys_inv s \<Longrightarrow> run s xs = Some s' \<Longrightarrow> sys_inv s'"
proof (induction xs arbitrary: s)
  case Nil
  then show ?case by simp
next
  case (Cons x xs)
  from Cons.prems(2) obtain s1 where s1: "step s x = Some s1" and r: "run s1 xs = Some s'"
    by (cases "step s x") simp_all
  from Cons.prems(1) s1 have "sys_inv s1" by (rule step_inv)
  then show ?case using r by (rule Cons.IH)
qed

lemma init_inv: "os_ok h \<Longrightarrow> sys_inv (init h)"
  by (simp add: init_def sys_inv_def wf_free_def no_buddies_def emptyStore_def)

lemma reachable_inv: "os_ok h \<Longrightarrow> run (init h) xs = Some s \<Longrightarrow> sys_inv s"
  using init_inv run_inv by blast

section \<open>Reachable states: allocate\<close>

lemma wf_free_no_sentinel:
  assumes "wf_free fl"
  shows "\<forall>l<maxLevels. 0 \<notin> set (fl l) \<and> - 1 \<notin> set (fl l)"
proof (intro allI impI conjI notI)
  fix l assume l: "l < maxLevels" and "0 \<in> set (fl l)"
  with assms show False by (auto simp: wf_free_def)
next
  fix l assume l: "l < maxLevels" and m: "- 1 \<in> set (fl l)"
  with assms have "aligned (l + 5) (- 1)" by (auto simp: wf_free_def)
  then have "(- 1 :: addr) \<noteq> - 1" by (rule aligned_not_sentinel) simp
  then show False by simp
qed

lemma emptyStore_apply: "emptyStore l = []"
  by (simp add: emptyStore_def)

lemma os_ok_example: "os_ok \<lparr>brk = 4096, brk_max = 8192\<rparr>"
  by (simp add: os_ok_def aligned_def take_bit_eq_mod)

lemma run_alloc_32:
  "run (init \<lparr>brk = 4096, brk_max = 8192\<rparr>) [Alloc 32] =
     Some (\<lparr>fList = splitLoop emptyStore 4096 7 0, heap = \<lparr>brk = 8192, brk_max = 8192\<rparr>\<rparr>,
           [\<lparr>memory = 4096, asize = 32\<rparr>])"
  by (simp add: init_def allocate_def lookupLevel_small ceilLevel_def findLoop_emptyStore
      growIfNull_def sbrk_def maxSize_eq splitAndReturn_def levelSize_eq maxLevels_def)

lemma run_alloc_4096:
  "run (init \<lparr>brk = 4096, brk_max = 8192\<rparr>) [Alloc 4096] =
     Some (\<lparr>fList = emptyStore, heap = \<lparr>brk = 8192, brk_max = 8192\<rparr>\<rparr>,
           [\<lparr>memory = 4096, asize = 4096\<rparr>])"
  by (simp add: init_def allocate_def lookupLevel_big findLoop_emptyStore
      growIfNull_def sbrk_def maxSize_eq splitAndReturn_def levelSize_eq maxLevels_def
      splitLoop.simps)

text \<open>
  Claim C4. In every state the allocator reaches from the empty store, when the
  program break the process starts with is non-null and a multiple of \<open>maxSize\<close>,
  \<open>allocate n\<close> with target level \<open>target\<close> does what section 4.4 of the specification
  says: it takes the head of the first non-empty list from \<open>target\<close> upward; when all
  are empty it grows the heap by one \<open>maxSize\<close> block taken at the top level, or fails;
  it then inserts the upper half \<open>block + levelSizeOf level\<close> at each level below the
  one found, down to \<open>target\<close>, and returns the block with \<open>levelSizeOf target\<close>.
\<close>

theorem allocate_refines_spec:
  "os_ok h \<Longrightarrow> run (init h) ops = Some (st, live) \<Longrightarrow> lookupLevel n = Inr target \<Longrightarrow>
   allocate st n = allocate_spec st target"
proof -
  assume t: "lookupLevel n = Inr target"
  assume "os_ok h" and "run (init h) ops = Some (st, live)"
  then have "sys_inv (st, live)" by (rule reachable_inv)
  then have "wf_free (fList st)" by (rule inv_D)
  then have "\<forall>l<maxLevels. 0 \<notin> set (fList st l) \<and> - 1 \<notin> set (fList st l)"
    by (rule wf_free_no_sentinel)
  then show ?thesis using t by (rule allocate_refines)
qed

theorem allocate_refines_spec_witness:
  "os_ok \<lparr>brk = 4096, brk_max = 8192\<rparr> \<and>
   run (init \<lparr>brk = 4096, brk_max = 8192\<rparr>) [Alloc 32] =
     Some (\<lparr>fList = splitLoop emptyStore 4096 7 0, heap = \<lparr>brk = 8192, brk_max = 8192\<rparr>\<rparr>,
           [\<lparr>memory = 4096, asize = 32\<rparr>]) \<and>
   lookupLevel 32 = Inr 0 \<and>
   allocate \<lparr>fList = splitLoop emptyStore 4096 7 0, heap = \<lparr>brk = 8192, brk_max = 8192\<rparr>\<rparr> 32 =
     allocate_spec \<lparr>fList = splitLoop emptyStore 4096 7 0, heap = \<lparr>brk = 8192, brk_max = 8192\<rparr>\<rparr> 0"
proof -
  have l: "lookupLevel 32 = Inr 0" by (simp add: lookupLevel_small ceilLevel_def)
  from allocate_refines_spec [OF os_ok_example run_alloc_32 l] os_ok_example run_alloc_32 l
  show ?thesis by simp
qed

text \<open>
  Claim C8. In every such state, \<open>allocate\<close> throws \<open>bad_alloc\<close> if and only if every
  list from the target level up is empty and \<open>sbrk\<close> returns the sentinel \<open>-1\<close>; the
  state at the throw is the state before the call.
\<close>

theorem allocate_bad_alloc:
  "os_ok h \<Longrightarrow> run (init h) ops = Some (st, live) \<Longrightarrow> lookupLevel n = Inr target \<Longrightarrow>
   ((\<exists>st'. allocate st n = Inl (BadAlloc, st')) \<longleftrightarrow>
      (\<forall>l. target \<le> l \<and> l < maxLevels \<longrightarrow> fList st l = []) \<and>
      fst (sbrk (heap st) maxSize) = - 1) \<and>
   (\<forall>st'. allocate st n = Inl (BadAlloc, st') \<longrightarrow> st' = st)"
proof -
  assume t: "lookupLevel n = Inr target"
  assume "os_ok h" and "run (init h) ops = Some (st, live)"
  then have "sys_inv (st, live)" by (rule reachable_inv)
  then have wf: "wf_free (fList st)" by (rule inv_D)
  have 2: "\<forall>st'. allocate st n = Inl (BadAlloc, st') \<longrightarrow> st' = st"
    using wf allocate_fail_state by blast
  have 1: "(\<exists>st'. allocate st n = Inl (BadAlloc, st')) \<longleftrightarrow>
      (\<forall>l. target \<le> l \<and> l < maxLevels \<longrightarrow> fList st l = []) \<and>
      fst (sbrk (heap st) maxSize) = - 1"
    using first_nonempty [of target 8 "fList st"]
  proof
    assume e: "\<forall>c. target \<le> c \<and> c < 8 \<longrightarrow> fList st c = []"
    obtain g h' where s: "sbrk (heap st) maxSize = (g, h')" by (cases "sbrk (heap st) maxSize")
    from allocate_grow [OF t e s] e s show ?thesis
      by (cases "g = - 1") (simp_all add: maxLevels_def)
  next
    assume "\<exists>f x xs. target \<le> f \<and> f < 8 \<and> (\<forall>c. target \<le> c \<and> c < f \<longrightarrow> fList st c = []) \<and>
      fList st f = x # xs"
    then obtain f x xs where tf: "target \<le> f" and f: "f < 8"
      and e: "\<forall>c. target \<le> c \<and> c < f \<longrightarrow> fList st c = []" and x: "fList st f = x # xs" by blast
    from wf_free_hd [OF wf f x] have xa: "aligned (f + 5) x" and xz: "x \<noteq> 0" .
    from xa have xs: "x \<noteq> - 1" by (rule aligned_not_sentinel) simp
    from tf f x have "\<not> (\<forall>l. target \<le> l \<and> l < maxLevels \<longrightarrow> fList st l = [])"
      by (auto simp: maxLevels_def)
    with allocate_found [OF t tf f e x xz xs] show ?thesis by simp
  qed
  from 1 2 show ?thesis by blast
qed

theorem allocate_bad_alloc_witness:
  "os_ok \<lparr>brk = 4096, brk_max = 8192\<rparr> \<and>
   run (init \<lparr>brk = 4096, brk_max = 8192\<rparr>) [Alloc 4096] =
     Some (\<lparr>fList = emptyStore, heap = \<lparr>brk = 8192, brk_max = 8192\<rparr>\<rparr>,
           [\<lparr>memory = 4096, asize = 4096\<rparr>]) \<and>
   lookupLevel 4096 = Inr 7 \<and>
   allocate \<lparr>fList = emptyStore, heap = \<lparr>brk = 8192, brk_max = 8192\<rparr>\<rparr> 4096 =
     Inl (BadAlloc, \<lparr>fList = emptyStore, heap = \<lparr>brk = 8192, brk_max = 8192\<rparr>\<rparr>)"
proof -
  have l: "lookupLevel 4096 = Inr 7" by (simp add: lookupLevel_big)
  have s: "fst (sbrk \<lparr>brk = 8192, brk_max = 8192\<rparr> maxSize) = - 1"
    by (simp add: sbrk_def maxSize_eq)
  from allocate_bad_alloc [OF os_ok_example run_alloc_4096 l] s
  have "\<exists>st'. allocate \<lparr>fList = emptyStore, heap = \<lparr>brk = 8192, brk_max = 8192\<rparr>\<rparr> 4096 =
          Inl (BadAlloc, st')"
    by (simp add: emptyStore_def)
  with allocate_bad_alloc [OF os_ok_example run_alloc_4096 l]
  have "allocate \<lparr>fList = emptyStore, heap = \<lparr>brk = 8192, brk_max = 8192\<rparr>\<rparr> 4096 =
     Inl (BadAlloc, \<lparr>fList = emptyStore, heap = \<lparr>brk = 8192, brk_max = 8192\<rparr>\<rparr>)"
    by auto
  with os_ok_example run_alloc_4096 l show ?thesis by simp
qed

section \<open>Reachable states: alignment and buddies\<close>

text \<open>
  Claim C7, as amended. When the program break the process starts with is non-null
  and a multiple of \<open>maxSize\<close>, then in every reachable state every address on the
  list of level \<open>l\<close> is a multiple of \<open>levelSize ! l\<close>, every outstanding handle has a
  level size and an address that is a multiple of it, and the break, which the next
  heap growth returns, is a multiple of \<open>maxSize\<close>. The allocator does not align what
  \<open>sbrk\<close> returns: the alignment of the top-level blocks is the system's.
\<close>

theorem blocks_aligned:
  "os_ok h \<Longrightarrow> run (init h) ops = Some (st, live) \<Longrightarrow>
   (\<forall>l<maxLevels. \<forall>a\<in>set (fList st l). unat (levelSize ! l) dvd unat a) \<and>
   (\<forall>a\<in>set live. asize a \<in> set levelSize \<and> unat (asize a) dvd unat (memory a)) \<and>
   unat maxSize dvd unat (brk (heap st))"
proof -
  assume "os_ok h" and "run (init h) ops = Some (st, live)"
  then have i: "sys_inv (st, live)" by (rule reachable_inv)
  note wf = inv_D(1) [OF i] and ok = inv_D(3) [OF i] and lv = inv_D(4) [OF i]
  have 1: "\<forall>l<maxLevels. \<forall>a\<in>set (fList st l). unat (levelSize ! l) dvd unat a"
  proof (intro allI impI ballI)
    fix l a assume l: "l < maxLevels" and a: "a \<in> set (fList st l)"
    with wf have "aligned (l + 5) a" by (simp add: wf_free_def)
    then have "2 ^ (l + 5) dvd unat a" by (simp only: aligned_dvd)
    moreover from l have "unat (levelSize ! l) = 2 ^ (l + 5)"
      by (intro unat_levelSize) (simp add: maxLevels_def)
    ultimately show "unat (levelSize ! l) dvd unat a" by simp
  qed
  have 2: "\<forall>a\<in>set live. asize a \<in> set levelSize \<and> unat (asize a) dvd unat (memory a)"
  proof
    fix a assume "a \<in> set live"
    with lv have "wf_handle a" by simp
    then obtain l where l: "l < 8" and sz: "asize a = levelSize ! l"
      and al: "aligned (l + 5) (memory a)" by (auto simp: wf_handle_def maxLevels_def)
    from al have "2 ^ (l + 5) dvd unat (memory a)" by (simp only: aligned_dvd)
    moreover from l have "unat (levelSize ! l) = 2 ^ (l + 5)" by (rule unat_levelSize)
    moreover from l have "levelSize ! l \<in> set levelSize" by (simp add: length_levelSize)
    ultimately show "asize a \<in> set levelSize \<and> unat (asize a) dvd unat (memory a)"
      by (simp add: sz)
  qed
  from ok have "aligned 12 (brk (heap st))" by (simp add: os_ok_def)
  then have "2 ^ 12 dvd unat (brk (heap st))" by (simp only: aligned_dvd)
  then have 3: "unat maxSize dvd unat (brk (heap st))" by (simp add: maxSize_eq)
  from 1 2 3 show ?thesis by blast
qed

theorem blocks_aligned_witness:
  "os_ok \<lparr>brk = 4096, brk_max = 8192\<rparr> \<and>
   run (init \<lparr>brk = 4096, brk_max = 8192\<rparr>) [Alloc 32] =
     Some (\<lparr>fList = splitLoop emptyStore 4096 7 0, heap = \<lparr>brk = 8192, brk_max = 8192\<rparr>\<rparr>,
           [\<lparr>memory = 4096, asize = 32\<rparr>]) \<and>
   unat (32 :: 64 word) dvd unat (4096 :: addr) \<and> unat maxSize dvd unat (8192 :: addr)"
  using blocks_aligned [OF os_ok_example run_alloc_32] os_ok_example run_alloc_32
  by simp

text \<open>
  Claim C7 as stated fails when the break is not a multiple of \<open>maxSize\<close>: from a
  break at 4097, \<open>allocate 4096\<close> returns the block at 4097.
\<close>

theorem unaligned_break_counterexample:
  "run (init \<lparr>brk = 4097, brk_max = 16384\<rparr>) [Alloc 4096] =
     Some (\<lparr>fList = emptyStore, heap = \<lparr>brk = 8193, brk_max = 16384\<rparr>\<rparr>,
           [\<lparr>memory = 4097, asize = 4096\<rparr>]) \<and>
   \<not> unat (4096 :: 64 word) dvd unat (4097 :: addr)"
  by (simp add: init_def allocate_def lookupLevel_big findLoop_emptyStore
      growIfNull_def sbrk_def maxSize_eq splitAndReturn_def levelSize_eq maxLevels_def
      splitLoop.simps)

text \<open>
  Claim C10, as amended. In every reachable state, at every level below the top
  level, no list holds both an address and its buddy \<open>address XOR levelSize ! l\<close>.
\<close>

theorem no_free_buddy_pair:
  "os_ok h \<Longrightarrow> run (init h) ops = Some (st, live) \<Longrightarrow>
   \<forall>l<maxLevels - 1. \<forall>a\<in>set (fList st l). a XOR levelSize ! l \<notin> set (fList st l)"
proof -
  assume "os_ok h" and "run (init h) ops = Some (st, live)"
  then have "sys_inv (st, live)" by (rule reachable_inv)
  then have "no_buddies (fList st)" by (rule inv_D)
  then show ?thesis by (simp add: no_buddies_def)
qed

theorem no_free_buddy_pair_witness:
  "os_ok \<lparr>brk = 4096, brk_max = 8192\<rparr> \<and>
   run (init \<lparr>brk = 4096, brk_max = 8192\<rparr>) [Alloc 32] =
     Some (\<lparr>fList = splitLoop emptyStore 4096 7 0, heap = \<lparr>brk = 8192, brk_max = 8192\<rparr>\<rparr>,
           [\<lparr>memory = 4096, asize = 32\<rparr>]) \<and>
   splitLoop emptyStore 4096 7 0 0 = [4128] \<and>
   4128 XOR levelSize ! 0 \<notin> set (splitLoop emptyStore 4096 7 0 0)"
proof -
  have e: "splitLoop emptyStore 4096 7 0 0 = [4128]"
    by (simp add: splitLoop_eq levelSize_eq emptyStore_def)
  have m: "(0 :: nat) < maxLevels - 1" by (simp add: maxLevels_def)
  from no_free_buddy_pair [OF os_ok_example run_alloc_32]
  have "\<forall>l<maxLevels - 1. \<forall>a\<in>set (splitLoop emptyStore 4096 7 0 l).
          a XOR levelSize ! l \<notin> set (splitLoop emptyStore 4096 7 0 l)"
    by (simp only: state.simps)
  then have "0 < maxLevels - 1 \<longrightarrow> (\<forall>a\<in>set (splitLoop emptyStore 4096 7 0 0).
          a XOR levelSize ! 0 \<notin> set (splitLoop emptyStore 4096 7 0 0))"
    by (rule spec)
  from this m have "\<forall>a\<in>set (splitLoop emptyStore 4096 7 0 0).
          a XOR levelSize ! 0 \<notin> set (splitLoop emptyStore 4096 7 0 0)"
    by (rule mp)
  with e have "4128 XOR levelSize ! 0 \<notin> set (splitLoop emptyStore 4096 7 0 0)"
    by simp
  with os_ok_example run_alloc_32 e show ?thesis by simp
qed

text \<open>
  Claim C10 as stated fails at the top level, where the loop guard
  \<open>alloc.size != maxSize\<close> stops before any merge: after two blocks of 4096 bytes are
  allocated from a break at 8192 and both released, the top list holds 8192 and
  \<open>8192 XOR 4096 = 12288\<close>.
\<close>

theorem top_level_buddies_counterexample:
  "os_ok \<lparr>brk = 8192, brk_max = 16384\<rparr> \<and>
   run (init \<lparr>brk = 8192, brk_max = 16384\<rparr>) [Alloc 4096, Alloc 4096, Free 0, Free 0] =
     Some (\<lparr>fList = emptyStore(7 := [8192, 12288]), heap = \<lparr>brk = 16384, brk_max = 16384\<rparr>\<rparr>, []) \<and>
   (8192 :: addr) XOR levelSize ! 7 = 12288"
  by (simp add: os_ok_def aligned_def take_bit_eq_mod
      init_def allocate_def lookupLevel_big findLoop_emptyStore
      growIfNull_def sbrk_def maxSize_eq splitAndReturn_def levelSize_eq maxLevels_def
      splitLoop.simps deallocate_def bubble.simps emptyStore_apply)

section \<open>Release after allocation\<close>

lemma bubble_stop:
  assumes "lv < 8" and "lv < 7 \<longrightarrow> m XOR levelSize ! lv \<notin> set (fl lv)"
  shows "bubble fl \<lparr>memory = m, asize = levelSize ! lv\<rparr> lv =
           Inr (fl, \<lparr>memory = m, asize = levelSize ! lv\<rparr>, lv)"
proof (cases "lv = 7")
  case True
  then have "levelSize ! lv = maxSize" using levelSize_top [of lv] by simp
  then show ?thesis by (subst bubble.simps) simp
next
  case False
  with assms have lv: "lv < 7" and nf: "m XOR levelSize ! lv \<notin> set (fl lv)" by simp_all
  from lv have "levelSize ! lv \<noteq> maxSize" using levelSize_top [of lv] by simp
  moreover from nf have "scavenge (m XOR levelSize ! lv) (fl lv) = None"
    by (simp add: scavenge_eq)
  ultimately show ?thesis using lv by (subst bubble.simps) (simp add: maxLevels_def)
qed

lemma bubble_step:
  assumes lv: "lv < 7" and b: "m XOR levelSize ! lv \<in> set (fl lv)"
  shows "bubble fl \<lparr>memory = m, asize = levelSize ! lv\<rparr> lv =
           bubble (fl(lv := remove1 (m XOR levelSize ! lv) (fl lv)))
             \<lparr>memory = m AND NOT (levelSize ! lv), asize = levelSize ! (lv + 1)\<rparr> (lv + 1)"
proof -
  from lv have "levelSize ! lv \<noteq> maxSize" using levelSize_top [of lv] by simp
  moreover from b have "scavenge (m XOR levelSize ! lv) (fl lv) =
      Some (remove1 (m XOR levelSize ! lv) (fl lv))"
    by (simp add: scavenge_eq)
  moreover have "push_bit 1 (levelSize ! lv) = levelSize ! (lv + 1)"
    using lv by (rule levelSize_double)
  ultimately show ?thesis using lv
    by (subst bubble.simps) (simp add: maxLevels_def del: push_bit_of_Suc_0)
qed

lemma bubble_chain:
  "l \<le> f \<Longrightarrow> f < 8 \<Longrightarrow> aligned (f + 5) x \<Longrightarrow>
   \<forall>c. l \<le> c \<and> c < f \<longrightarrow> fl c = [x + levelSize ! c] \<Longrightarrow>
   f < 7 \<longrightarrow> x XOR levelSize ! f \<notin> set (fl f) \<Longrightarrow>
   bubble fl \<lparr>memory = x, asize = levelSize ! l\<rparr> l =
     Inr ((\<lambda>c. if l \<le> c \<and> c < f then [] else fl c), \<lparr>memory = x, asize = levelSize ! f\<rparr>, f)"
proof (induction "f - l" arbitrary: l fl)
  case 0
  then have lf: "l = f" by simp
  have "(\<lambda>c. if l \<le> c \<and> c < f then [] else fl c) = fl" by (rule ext) (auto simp: lf)
  moreover have "bubble fl \<lparr>memory = x, asize = levelSize ! f\<rparr> f =
           Inr (fl, \<lparr>memory = x, asize = levelSize ! f\<rparr>, f)"
    using "0.prems"(2,5) by (rule bubble_stop)
  ultimately show ?case by (simp add: lf)
next
  case (Suc k)
  then have lf: "l < f" by simp
  with Suc.prems(2) have l7: "l < 7" by simp
  then have ls: "levelSize ! l = 2 ^ (l + 5)" by (simp add: levelSize_nth)
  from lf have "Suc (l + 5) \<le> f + 5" by simp
  with Suc.prems(3) have al: "aligned (Suc (l + 5)) x" by (rule aligned_le)
  from al have bx: "x XOR levelSize ! l = x + levelSize ! l" unfolding ls by (rule lower_xor)
  from al have an: "x AND NOT (levelSize ! l) = x" unfolding ls by (rule lower_and_not)
  from lf Suc.prems(4) have e: "fl l = [x + levelSize ! l]" by simp
  let ?fl = "fl(l := [])"
  have "bubble fl \<lparr>memory = x, asize = levelSize ! l\<rparr> l =
          bubble (fl(l := remove1 (x XOR levelSize ! l) (fl l)))
             \<lparr>memory = x AND NOT (levelSize ! l), asize = levelSize ! (l + 1)\<rparr> (l + 1)"
    using l7 by (rule bubble_step) (simp add: bx e)
  also have "\<dots> = bubble ?fl \<lparr>memory = x, asize = levelSize ! (l + 1)\<rparr> (l + 1)"
    by (simp add: bx e an)
  also have "\<dots> = Inr ((\<lambda>c. if l + 1 \<le> c \<and> c < f then [] else ?fl c),
                        \<lparr>memory = x, asize = levelSize ! f\<rparr>, f)"
  proof (rule Suc.hyps(1))
    show "k = f - (l + 1)" using Suc.hyps(2) by simp
    show "l + 1 \<le> f" using lf by simp
    show "f < 8" by (rule Suc.prems(2))
    show "aligned (f + 5) x" by (rule Suc.prems(3))
    show "\<forall>c. l + 1 \<le> c \<and> c < f \<longrightarrow> ?fl c = [x + levelSize ! c]"
      using Suc.prems(4) by simp
    show "f < 7 \<longrightarrow> x XOR levelSize ! f \<notin> set (?fl f)"
      using Suc.prems(5) lf by simp
  qed
  also have "(\<lambda>c. if l + 1 \<le> c \<and> c < f then [] else ?fl c) =
             (\<lambda>c. if l \<le> c \<and> c < f then [] else fl c)"
    using lf by (auto simp: fun_eq_iff)
  finally show ?case .
qed

lemma deallocate_chain:
  assumes x: "x \<noteq> 0" and lf: "l \<le> f" and f: "f < 8" and al: "aligned (f + 5) x"
    and ch: "\<forall>c. l \<le> c \<and> c < f \<longrightarrow> fList st c = [x + levelSize ! c]"
    and nb: "f < 7 \<longrightarrow> x XOR levelSize ! f \<notin> set (fList st f)"
  shows "deallocate st \<lparr>memory = x, asize = levelSize ! l\<rparr> =
     Inr (\<lparr>memory = 0, asize = 0\<rparr>,
          st\<lparr>fList := \<lambda>c. if l \<le> c \<and> c < f then [] else if c = f then x # fList st f
                           else fList st c\<rparr>)"
proof -
  from lf f have l: "l < 8" by simp
  have "(\<lambda>c. if l \<le> c \<and> c < f then [] else fList st c)
          (f := x # (\<lambda>c. if l \<le> c \<and> c < f then [] else fList st c) f) =
        (\<lambda>c. if l \<le> c \<and> c < f then [] else if c = f then x # fList st f else fList st c)"
    by (auto simp: fun_eq_iff)
  with bubble_chain [OF lf f al ch nb] x f l show ?thesis
    by (simp add: deallocate_def lookupLevel_levelSize maxLevels_def)
qed

lemma state_eqI: "fList s = fList t \<Longrightarrow> heap s = heap t \<Longrightarrow> s = (t :: state)"
  by simp

lemma round_trip_inv:
  assumes i: "sys_inv (st, live)" and al: "allocate st n = Inr (a1, s1)"
  shows "\<exists>s2 a2 s3. deallocate s1 a1 = Inr (\<lparr>memory = 0, asize = 0\<rparr>, s2) \<and>
           allocate s2 n = Inr (a2, s3) \<and> memory a2 = memory a1 \<and> heap s3 = heap s2"
proof -
  note wf = inv_D(1) [OF i] and nb = inv_D(2) [OF i] and ok = inv_D(3) [OF i]
  from wf ok al show ?thesis
  proof (cases rule: allocate_cases)
    case (found t f x xs)
    from wf_free_hd [OF wf found(3,5)] have xa: "aligned (f + 5) x" and xz: "x \<noteq> 0" .
    have ch: "\<forall>c. t \<le> c \<and> c < f \<longrightarrow> fList s1 c = [x + levelSize ! c]"
      by (simp add: found(7))
    have s1f: "fList s1 f = xs" by (simp add: found(7))
    have nbf: "f < 7 \<longrightarrow> x XOR levelSize ! f \<notin> set (fList s1 f)"
    proof
      assume "f < 7"
      then have "f < maxLevels - 1" by (simp add: maxLevels_def)
      moreover have "x \<in> set (fList st f)" by (simp add: found(5))
      ultimately have "x XOR levelSize ! f \<notin> set (fList st f)"
        using nb by (simp add: no_buddies_def)
      then show "x XOR levelSize ! f \<notin> set (fList s1 f)" by (simp add: s1f found(5))
    qed
    let ?s2 = "s1\<lparr>fList := \<lambda>c. if t \<le> c \<and> c < f then [] else if c = f then x # fList s1 f
                           else fList s1 c\<rparr>"
    have d: "deallocate s1 a1 = Inr (\<lparr>memory = 0, asize = 0\<rparr>, ?s2)"
      unfolding found(6) using xz found(2,3) xa ch nbf by (rule deallocate_chain)
    have "fList ?s2 = fList st"
      using found(4,5) by (auto simp: fun_eq_iff found(7))
    moreover have "heap ?s2 = heap st" by (simp add: found(8))
    ultimately have "?s2 = st" by (rule state_eqI)
    with al have "allocate ?s2 n = Inr (a1, s1)" by simp
    moreover have "heap s1 = heap ?s2" by simp
    ultimately show ?thesis using d by blast
  next
    case (grow t g h')
    from sbrk_ok [OF ok grow(4,5)] have ga: "aligned 12 g" and gz: "g \<noteq> 0" by blast+
    then have g7: "aligned (7 + 5) g" by simp
    have ch: "\<forall>c. t \<le> c \<and> c < 7 \<longrightarrow> fList s1 c = [g + levelSize ! c]"
      by (simp add: grow(7))
    from grow(2) have t7: "t \<le> 7" by simp
    let ?s2 = "s1\<lparr>fList := \<lambda>c. if t \<le> c \<and> c < 7 then [] else if c = 7 then g # fList s1 7
                           else fList s1 c\<rparr>"
    have d: "deallocate s1 a1 = Inr (\<lparr>memory = 0, asize = 0\<rparr>, ?s2)"
      unfolding grow(6) using gz t7 _ g7 ch by (rule deallocate_chain) simp_all
    from grow(3) t7 have "fList st 7 = []" by simp
    then have s17: "fList s1 7 = []" by (simp add: grow(7))
    have e2: "\<forall>c. t \<le> c \<and> c < 7 \<longrightarrow> fList ?s2 c = []" by simp
    have x2: "fList ?s2 7 = [g]" by (simp add: s17)
    from allocate_found [OF grow(1) t7 _ e2 x2 gz grow(5)]
    obtain s3 where a2: "allocate ?s2 n = Inr (\<lparr>memory = g, asize = levelSize ! t\<rparr>, s3)"
      and h3: "heap s3 = heap ?s2" by simp
    from a2 h3 d show ?thesis unfolding grow(6) by auto
  qed
qed

text \<open>
  Claim C5. In every reachable state (the program break the process starts with
  being non-null and a multiple of \<open>maxSize\<close>), when \<open>allocate n\<close> returns a handle,
  releasing that handle and calling \<open>allocate n\<close> again, with nothing in between,
  returns the same address, and the second call leaves the program break where it
  was: it does not grow the heap.
\<close>

theorem alloc_free_alloc:
  "os_ok h \<Longrightarrow> run (init h) ops = Some (st, live) \<Longrightarrow> allocate st n = Inr (a1, s1) \<Longrightarrow>
   \<exists>s2 a2 s3. deallocate s1 a1 = Inr (\<lparr>memory = 0, asize = 0\<rparr>, s2) \<and>
     allocate s2 n = Inr (a2, s3) \<and> memory a2 = memory a1 \<and> heap s3 = heap s2"
proof -
  assume al: "allocate st n = Inr (a1, s1)"
  assume "os_ok h" and "run (init h) ops = Some (st, live)"
  then have "sys_inv (st, live)" by (rule reachable_inv)
  then show ?thesis using al by (rule round_trip_inv)
qed

theorem alloc_free_alloc_witness:
  "os_ok \<lparr>brk = 4096, brk_max = 8192\<rparr> \<and>
   run (init \<lparr>brk = 4096, brk_max = 8192\<rparr>) [] =
     Some (\<lparr>fList = emptyStore, heap = \<lparr>brk = 4096, brk_max = 8192\<rparr>\<rparr>, []) \<and>
   allocate \<lparr>fList = emptyStore, heap = \<lparr>brk = 4096, brk_max = 8192\<rparr>\<rparr> 32 =
     Inr (\<lparr>memory = 4096, asize = 32\<rparr>,
          \<lparr>fList = splitLoop emptyStore 4096 7 0, heap = \<lparr>brk = 8192, brk_max = 8192\<rparr>\<rparr>) \<and>
   (\<exists>s2 a2 s3.
      deallocate \<lparr>fList = splitLoop emptyStore 4096 7 0, heap = \<lparr>brk = 8192, brk_max = 8192\<rparr>\<rparr>
        \<lparr>memory = 4096, asize = 32\<rparr> = Inr (\<lparr>memory = 0, asize = 0\<rparr>, s2) \<and>
      allocate s2 32 = Inr (a2, s3) \<and> memory a2 = 4096 \<and> heap s3 = heap s2)"
proof -
  have r: "run (init \<lparr>brk = 4096, brk_max = 8192\<rparr>) [] =
     Some (\<lparr>fList = emptyStore, heap = \<lparr>brk = 4096, brk_max = 8192\<rparr>\<rparr>, [])"
    by (simp add: init_def)
  have a: "allocate \<lparr>fList = emptyStore, heap = \<lparr>brk = 4096, brk_max = 8192\<rparr>\<rparr> 32 =
     Inr (\<lparr>memory = 4096, asize = 32\<rparr>,
          \<lparr>fList = splitLoop emptyStore 4096 7 0, heap = \<lparr>brk = 8192, brk_max = 8192\<rparr>\<rparr>)"
    by (simp add: allocate_def lookupLevel_small ceilLevel_def findLoop_emptyStore
        growIfNull_def sbrk_def maxSize_eq splitAndReturn_def levelSize_eq maxLevels_def)
  from alloc_free_alloc [OF os_ok_example r a] os_ok_example r a show ?thesis by simp
qed

lemma upper_and_not: "aligned (Suc k) a \<Longrightarrow> (a + 2 ^ k) AND NOT (2 ^ k) = a"
  by (simp add: aligned_add_or, intro bit_word_eqI)
    (auto simp: aligned_bits bit_or_iff bit_and_iff bit_not_iff bit_exp_iff)

lemma deallocate_bubble:
  assumes "m \<noteq> 0" and "l < 8"
    and "bubble (fList st) \<lparr>memory = m, asize = levelSize ! l\<rparr> l = Inr (fl, a', lv)" and "lv < 8"
  shows "deallocate st \<lparr>memory = m, asize = levelSize ! l\<rparr> =
           Inr (\<lparr>memory = 0, asize = 0\<rparr>, st\<lparr>fList := fl(lv := memory a' # fl lv)\<rparr>)"
  using assms by (simp add: deallocate_def lookupLevel_levelSize maxLevels_def)

text \<open>
  Claim C6, as amended. From the empty store, with room for one heap growth and a
  program break that is non-null and a multiple of \<open>maxSize\<close>, two requests of at
  most 32 bytes are granted the two halves \<open>brk\<close> and \<open>brk XOR 32\<close> of the lowest 64 bytes
  of one fresh top-level block. Releasing the two handles, in either order, leaves
  the fresh block alone on the top list and every other list empty.
\<close>

theorem coalesce_both_orders:
  assumes ok: "os_ok h" and room: "unat (brk h) + unat maxSize \<le> unat (brk_max h)"
    and n1: "unat n1 \<le> 32" and n2: "unat n2 \<le> 32"
  shows "\<exists>a1 s1 a2 s2.
     allocate \<lparr>fList = emptyStore, heap = h\<rparr> n1 = Inr (a1, s1) \<and>
     allocate s1 n2 = Inr (a2, s2) \<and>
     asize a1 = 32 \<and> asize a2 = 32 \<and> memory a1 = brk h \<and> memory a2 = memory a1 XOR 32 \<and>
     (\<exists>s3 s4. deallocate s2 a1 = Inr (\<lparr>memory = 0, asize = 0\<rparr>, s3) \<and>
              deallocate s3 a2 = Inr (\<lparr>memory = 0, asize = 0\<rparr>, s4) \<and>
              fList s4 = emptyStore(7 := [brk h])) \<and>
     (\<exists>s3 s4. deallocate s2 a2 = Inr (\<lparr>memory = 0, asize = 0\<rparr>, s3) \<and>
              deallocate s3 a1 = Inr (\<lparr>memory = 0, asize = 0\<rparr>, s4) \<and>
              fList s4 = emptyStore(7 := [brk h]))"
proof -
  define g where "g = brk h"
  define h' where "h' = h\<lparr>brk := brk h + maxSize\<rparr>"
  define u where "u = g + levelSize ! 0"
  define F1 where "F1 = (\<lambda>c. if 0 \<le> c \<and> c < 7 then [g + levelSize ! c] else emptyStore c)"
  define F2 where "F2 = (\<lambda>c. if 0 \<le> c \<and> c < 0 then [u + levelSize ! c]
                             else if c = 0 then [] else F1 c)"
  have ls0: "levelSize ! 0 = 2 ^ (0 + 5)" by (rule levelSize_nth) simp
  have ls0': "levelSize ! 0 = 32" by (simp add: levelSize_eq)
  from ok have ga: "aligned 12 g" and gz: "g \<noteq> 0" by (simp_all add: os_ok_def g_def)
  from ga have g7: "aligned (7 + 5) g" by simp
  from ga have gs: "g \<noteq> - 1" by (rule aligned_not_sentinel) simp
  from ga have g6: "aligned (Suc (0 + 5)) g" by (rule aligned_le) simp
  then have g5: "aligned (0 + 5) g" by (rule aligned_Suc)
  have s: "sbrk h maxSize = (g, h')" using room by (simp add: sbrk_def g_def h'_def)
  have t1: "lookupLevel n1 = Inr 0" using n1 by (simp add: lookupLevel_small ceilLevel_def)
  have t2: "lookupLevel n2 = Inr 0" using n2 by (simp add: lookupLevel_small ceilLevel_def)
  \<comment> \<open>the two allocations\<close>
  let ?a1 = "\<lparr>memory = g, asize = levelSize ! 0\<rparr>"
  let ?a2 = "\<lparr>memory = u, asize = levelSize ! 0\<rparr>"
  let ?s0 = "\<lparr>fList = emptyStore, heap = h\<rparr>"
  let ?s1 = "\<lparr>fList = F1, heap = h'\<rparr>"
  let ?s2 = "\<lparr>fList = F2, heap = h'\<rparr>"
  have "allocate ?s0 n1 =
      (if g = - 1 then Inl (BadAlloc, ?s0)
       else Inr (?a1, \<lparr>fList = (\<lambda>c. if 0 \<le> c \<and> c < 7 then [g + levelSize ! c]
                                  else fList ?s0 c), heap = h'\<rparr>))"
    by (rule allocate_grow [OF t1]) (simp_all add: emptyStore_apply s)
  then have A1: "allocate ?s0 n1 = Inr (?a1, ?s1)" using gs by (simp add: F1_def fun_eq_iff)
  from split_block_wf [OF g7, of 0]
  have ua: "aligned (0 + 5) u" and uz: "u \<noteq> 0" by (simp_all add: u_def)
  from ua have us: "u \<noteq> - 1" by (rule aligned_not_sentinel) simp
  have F10: "fList ?s1 0 = [u]" by (simp add: F1_def u_def)
  have "allocate ?s1 n2 =
      Inr (?a2, \<lparr>fList = (\<lambda>c. if 0 \<le> c \<and> c < 0 then [u + levelSize ! c]
                             else if c = 0 then [] else fList ?s1 c), heap = heap ?s1\<rparr>)"
    by (rule allocate_found [OF t2 _ _ _ F10 uz us]) simp_all
  then have A2: "allocate ?s1 n2 = Inr (?a2, ?s2)" by (simp add: F2_def fun_eq_iff)
  have ux: "u = g XOR 32"
    using lower_xor [OF g6] by (simp add: u_def ls0')
  have xu: "u XOR levelSize ! 0 = g"
    using upper_xor [OF g6] by (simp add: u_def ls0')
  have un: "u AND NOT (levelSize ! 0) = g"
    using upper_and_not [OF g6] by (simp add: u_def ls0')
  have F20: "F2 0 = []" by (simp add: F2_def)
  have F2c: "\<And>c. 1 \<le> c \<Longrightarrow> c < 7 \<Longrightarrow> F2 c = [g + levelSize ! c]"
    by (simp add: F2_def F1_def)
  have F27: "F2 7 = []" by (simp add: F2_def F1_def emptyStore_apply)
  have F2hi: "\<And>c. 7 < c \<Longrightarrow> F2 c = []" by (simp add: F2_def F1_def emptyStore_apply)
  \<comment> \<open>first order: the lower block, then the upper block\<close>
  define F3 where "F3 = (\<lambda>c. if 0 \<le> c \<and> c < 0 then [] else if c = 0 then g # F2 0 else F2 c)"
  let ?s3 = "?s2\<lparr>fList := F3\<rparr>"
  have "deallocate ?s2 ?a1 = Inr (\<lparr>memory = 0, asize = 0\<rparr>,
          ?s2\<lparr>fList := \<lambda>c. if 0 \<le> c \<and> c < 0 then [] else if c = 0 then g # fList ?s2 0
                           else fList ?s2 c\<rparr>)"
    by (rule deallocate_chain [OF gz _ _ g5]) (simp_all add: F20)
  then have D1: "deallocate ?s2 ?a1 = Inr (\<lparr>memory = 0, asize = 0\<rparr>, ?s3)"
    by (simp add: F3_def fun_eq_iff)
  have F30: "F3 0 = [g]" by (simp add: F3_def F20)
  define F4 where "F4 = F3(0 := [])"
  have "bubble F3 ?a2 0 =
          bubble (F3(0 := remove1 (u XOR levelSize ! 0) (F3 0)))
             \<lparr>memory = u AND NOT (levelSize ! 0), asize = levelSize ! (0 + 1)\<rparr> (0 + 1)"
    by (rule bubble_step) (simp_all add: xu F30)
  also have "\<dots> = bubble F4 \<lparr>memory = g, asize = levelSize ! 1\<rparr> 1"
    by (simp add: xu un F30 F4_def)
  also have "\<dots> = Inr ((\<lambda>c. if 1 \<le> c \<and> c < 7 then [] else F4 c),
                        \<lparr>memory = g, asize = levelSize ! 7\<rparr>, 7)"
    by (rule bubble_chain [OF _ _ g7]) (simp_all add: F4_def F3_def F2c)
  finally have B: "bubble (fList ?s3) ?a2 0 =
      Inr ((\<lambda>c. if 1 \<le> c \<and> c < 7 then [] else F4 c), \<lparr>memory = g, asize = levelSize ! 7\<rparr>, 7)"
    by simp
  let ?F5 = "(\<lambda>c. if 1 \<le> c \<and> c < 7 then [] else F4 c)
               (7 := g # (\<lambda>c. if 1 \<le> c \<and> c < 7 then [] else F4 c) 7)"
  have "deallocate ?s3 ?a2 = Inr (\<lparr>memory = 0, asize = 0\<rparr>,
          ?s3\<lparr>fList := (\<lambda>c. if 1 \<le> c \<and> c < 7 then [] else F4 c)
               (7 := memory \<lparr>memory = g, asize = levelSize ! 7\<rparr> #
                       (\<lambda>c. if 1 \<le> c \<and> c < 7 then [] else F4 c) 7)\<rparr>)"
    by (rule deallocate_bubble [OF uz _ B]) simp_all
  then have D2: "deallocate ?s3 ?a2 = Inr (\<lparr>memory = 0, asize = 0\<rparr>, ?s3\<lparr>fList := ?F5\<rparr>)"
    by simp
  have E1: "fList (?s3\<lparr>fList := ?F5\<rparr>) = emptyStore(7 := [g])"
  proof -
    have "?F5 c = (emptyStore(7 := [g])) c" for c
    proof -
      consider "c = 0" | "1 \<le> c \<and> c < 7" | "c = 7" | "7 < c" by linarith
      then show ?thesis
        by cases (simp_all add: F4_def F3_def F27 F2hi emptyStore_apply)
    qed
    then show ?thesis by (simp add: fun_eq_iff)
  qed
  \<comment> \<open>second order: the upper block, then the lower block\<close>
  define G3 where "G3 = (\<lambda>c. if 0 \<le> c \<and> c < 0 then [] else if c = 0 then u # F2 0 else F2 c)"
  let ?t3 = "?s2\<lparr>fList := G3\<rparr>"
  have "deallocate ?s2 ?a2 = Inr (\<lparr>memory = 0, asize = 0\<rparr>,
          ?s2\<lparr>fList := \<lambda>c. if 0 \<le> c \<and> c < 0 then [] else if c = 0 then u # fList ?s2 0
                           else fList ?s2 c\<rparr>)"
    by (rule deallocate_chain [OF uz _ _ ua]) (simp_all add: F20)
  then have D1': "deallocate ?s2 ?a2 = Inr (\<lparr>memory = 0, asize = 0\<rparr>, ?t3)"
    by (simp add: G3_def fun_eq_iff)
  have G3c: "\<forall>c. 0 \<le> c \<and> c < 7 \<longrightarrow> fList ?t3 c = [g + levelSize ! c]"
  proof (intro allI impI)
    fix c :: nat assume c: "0 \<le> c \<and> c < 7"
    show "fList ?t3 c = [g + levelSize ! c]"
    proof (cases "c = 0")
      case True
      then show ?thesis by (simp add: G3_def F20 u_def)
    next
      case False
      with c have "1 \<le> c" "c < 7" by simp_all
      then have "F2 c = [g + levelSize ! c]" by (rule F2c)
      with False show ?thesis by (simp add: G3_def)
    qed
  qed
  let ?G5 = "\<lambda>c. if 0 \<le> c \<and> c < 7 then [] else if c = 7 then g # fList ?t3 7 else fList ?t3 c"
  have D2': "deallocate ?t3 ?a1 = Inr (\<lparr>memory = 0, asize = 0\<rparr>, ?t3\<lparr>fList := ?G5\<rparr>)"
    by (rule deallocate_chain [OF gz _ _ g7 G3c]) simp_all
  have E2: "fList (?t3\<lparr>fList := ?G5\<rparr>) = emptyStore(7 := [g])"
  proof -
    have "?G5 c = (emptyStore(7 := [g])) c" for c
    proof -
      consider "c < 7" | "c = 7" | "7 < c" by linarith
      then show ?thesis
        by cases (simp_all add: G3_def F27 F2hi emptyStore_apply)
    qed
    then show ?thesis by (simp add: fun_eq_iff)
  qed
  have sz: "asize ?a1 = 32" "asize ?a2 = 32" by (simp_all add: ls0')
  have m: "memory ?a1 = brk h" "memory ?a2 = memory ?a1 XOR 32" by (simp_all add: g_def ux)
  from D1 D2 E1 have O1: "\<exists>s3 s4. deallocate ?s2 ?a1 = Inr (\<lparr>memory = 0, asize = 0\<rparr>, s3) \<and>
              deallocate s3 ?a2 = Inr (\<lparr>memory = 0, asize = 0\<rparr>, s4) \<and>
              fList s4 = emptyStore(7 := [brk h])"
    unfolding g_def [symmetric] by blast
  from D1' D2' E2 have O2: "\<exists>s3 s4. deallocate ?s2 ?a2 = Inr (\<lparr>memory = 0, asize = 0\<rparr>, s3) \<and>
              deallocate s3 ?a1 = Inr (\<lparr>memory = 0, asize = 0\<rparr>, s4) \<and>
              fList s4 = emptyStore(7 := [brk h])"
    unfolding g_def [symmetric] by blast
  from A1 A2 sz m O1 O2 show ?thesis by blast
qed

theorem coalesce_both_orders_witness:
  "os_ok \<lparr>brk = 4096, brk_max = 8192\<rparr> \<and>
   unat (brk \<lparr>brk = 4096, brk_max = 8192\<rparr>) + unat maxSize \<le> unat (brk_max \<lparr>brk = 4096, brk_max = 8192\<rparr>) \<and>
   unat (32 :: 64 word) \<le> 32 \<and>
   (\<exists>a1 s1 a2 s2.
     allocate \<lparr>fList = emptyStore, heap = \<lparr>brk = 4096, brk_max = 8192\<rparr>\<rparr> 32 = Inr (a1, s1) \<and>
     allocate s1 32 = Inr (a2, s2) \<and>
     asize a1 = 32 \<and> asize a2 = 32 \<and> memory a1 = 4096 \<and> memory a2 = 4128 \<and>
     (\<exists>s3 s4. deallocate s2 a1 = Inr (\<lparr>memory = 0, asize = 0\<rparr>, s3) \<and>
              deallocate s3 a2 = Inr (\<lparr>memory = 0, asize = 0\<rparr>, s4) \<and>
              fList s4 = emptyStore(7 := [4096])) \<and>
     (\<exists>s3 s4. deallocate s2 a2 = Inr (\<lparr>memory = 0, asize = 0\<rparr>, s3) \<and>
              deallocate s3 a1 = Inr (\<lparr>memory = 0, asize = 0\<rparr>, s4) \<and>
              fList s4 = emptyStore(7 := [4096])))"
proof -
  have room: "unat (brk \<lparr>brk = 4096, brk_max = 8192\<rparr>) + unat maxSize
      \<le> unat (brk_max \<lparr>brk = 4096, brk_max = 8192\<rparr>)"
    by (simp add: maxSize_eq)
  have n: "unat (32 :: 64 word) \<le> 32" by simp
  from coalesce_both_orders [OF os_ok_example room n n]
  obtain a1 s1 a2 s2 where
    1: "allocate \<lparr>fList = emptyStore, heap = \<lparr>brk = 4096, brk_max = 8192\<rparr>\<rparr> 32 = Inr (a1, s1)"
       "allocate s1 32 = Inr (a2, s2)" "asize a1 = 32" "asize a2 = 32"
    and m: "memory a1 = 4096" "memory a2 = memory a1 XOR 32"
    and 2: "\<exists>s3 s4. deallocate s2 a1 = Inr (\<lparr>memory = 0, asize = 0\<rparr>, s3) \<and>
              deallocate s3 a2 = Inr (\<lparr>memory = 0, asize = 0\<rparr>, s4) \<and>
              fList s4 = emptyStore(7 := [4096])"
       "\<exists>s3 s4. deallocate s2 a2 = Inr (\<lparr>memory = 0, asize = 0\<rparr>, s3) \<and>
              deallocate s3 a1 = Inr (\<lparr>memory = 0, asize = 0\<rparr>, s4) \<and>
              fList s4 = emptyStore(7 := [4096])"
    by auto
  from m have "memory a2 = 4128" by simp
  with 1 m(1) 2 os_ok_example room n show ?thesis by blast
qed

text \<open>
  Claim C6 as stated fails when the break is not a multiple of \<open>maxSize\<close>. From a
  break at 4160 the two 32-byte blocks are 4160 and \<open>4160 XOR 32 = 4192\<close>, the two
  halves of the lowest 64 bytes of the fresh block. After both are released, in
  either order, they have merged into the 64-byte block at 4160, whose buddy address
  \<open>4160 XOR 64 = 4096\<close> is not the split-off half 4224: the merge stops at level 1,
  the lists of levels 1 to 6 hold blocks and the top list is empty.
\<close>

theorem unaligned_coalesce_counterexample:
  "map_option snd (run (init \<lparr>brk = 4160, brk_max = 16384\<rparr>) [Alloc 32, Alloc 32]) =
     Some [\<lparr>memory = 4192, asize = 32\<rparr>, \<lparr>memory = 4160, asize = 32\<rparr>] \<and>
   (4160 :: addr) XOR 32 = 4192 \<and>
   map_option (freeLists \<circ> fst)
     (run (init \<lparr>brk = 4160, brk_max = 16384\<rparr>) [Alloc 32, Alloc 32, Free 1, Free 0]) =
     Some [[], [4160, 4224], [4288], [4416], [4672], [5184], [6208], []] \<and>
   map_option (freeLists \<circ> fst)
     (run (init \<lparr>brk = 4160, brk_max = 16384\<rparr>) [Alloc 32, Alloc 32, Free 0, Free 0]) =
     Some [[], [4160, 4224], [4288], [4416], [4672], [5184], [6208], []]"
  by (simp add: init_def allocate_def lookupLevel_small ceilLevel_def findLoop.simps
      splitLoop.simps growIfNull_def sbrk_def maxSize_eq splitAndReturn_def levelSize_eq
      maxLevels_def emptyStore_def deallocate_def bubble.simps freeLists_def upt_levels)

end
